theory Spec2Isabelle
  imports Complex_Main "HOL-Library.Word" "HOL-Library.Log_Nat"
begin

unbundle bit_operations_syntax

section \<open>Data model\<close>

text \<open>
  The two modules \<^verbatim>\<open>iprf.py\<close> and \<^verbatim>\<open>table_prp.py\<close> are embedded function by
  function. Python integers are unbounded and are modelled by \<^typ>\<open>int\<close>; byte strings
  are lists of 8-bit words; an exception is a value \<open>Inl e\<close> of a sum type.
\<close>

type_synonym byte = "8 word"

datatype error =
  ValueError | StructError | IndexError | KeyError | ZeroDivisionError | OverflowError

subsection \<open>External primitives\<close>

text \<open>
  The block cipher (AES-128 in ECB mode, from the \<^verbatim>\<open>cryptography\<close> package), the hash
  (\<^verbatim>\<open>hashlib.sha256\<close>) and the double-precision arithmetic of the Python runtime are not
  code of the repository. They are parameters of the development: every function below
  that reaches one of them takes a record of primitives, and every general theorem holds
  for all such records.

  The arithmetic fields stand for the Python operations on \<^verbatim>\<open>float\<close>:
  conversion from \<^verbatim>\<open>int\<close>, a decimal literal (mantissa and power of ten), true
  division of two integers, the four operations, the comparisons, \<^verbatim>\<open>abs\<close>,
  \<^verbatim>\<open>math.sqrt\<close>, \<^verbatim>\<open>math.pow\<close> and \<^verbatim>\<open>round\<close>. They are total functions here.
  One exception of the arithmetic depends on an integer alone and is part of the model:
  the conversion of an \<^verbatim>\<open>int\<close> that is too large for a double, in \<^verbatim>\<open>n * p\<close> and in
  \<^verbatim>\<open>math.pow(q, n)\<close> (see \<open>float_of_int_overflows\<close> below). The others depend on the
  values of floats and stay outside the model: \<^verbatim>\<open>math.sqrt\<close> of a negative number,
  \<^verbatim>\<open>round\<close> of an infinity or a NaN, an overflowing \<^verbatim>\<open>math.pow\<close>, a division by the
  float zero.
  \<open>ceil_log2\<close> stands for \<^verbatim>\<open>int(math.ceil(math.log2(m)))\<close>.
\<close>

record 'f prims =
  aes_encrypt :: "byte list \<Rightarrow> byte list \<Rightarrow> byte list"
  sha256 :: "byte list \<Rightarrow> byte list"
  ceil_log2 :: "int \<Rightarrow> int"
  fl_int :: "int \<Rightarrow> 'f"
  fl_lit :: "int \<Rightarrow> int \<Rightarrow> 'f"
  fl_truediv :: "int \<Rightarrow> int \<Rightarrow> 'f"
  fl_add :: "'f \<Rightarrow> 'f \<Rightarrow> 'f"
  fl_sub :: "'f \<Rightarrow> 'f \<Rightarrow> 'f"
  fl_mul :: "'f \<Rightarrow> 'f \<Rightarrow> 'f"
  fl_div :: "'f \<Rightarrow> 'f \<Rightarrow> 'f"
  fl_eq :: "'f \<Rightarrow> 'f \<Rightarrow> bool"
  fl_lt :: "'f \<Rightarrow> 'f \<Rightarrow> bool"
  fl_le :: "'f \<Rightarrow> 'f \<Rightarrow> bool"
  fl_abs :: "'f \<Rightarrow> 'f"
  fl_sqrt :: "'f \<Rightarrow> 'f"
  fl_pow :: "'f \<Rightarrow> 'f \<Rightarrow> 'f"
  fl_round :: "'f \<Rightarrow> int"

text \<open>
  \<^verbatim>\<open>algorithms.AES(key)\<close> accepts keys of 128, 192 and 256 bits and raises
  \<^verbatim>\<open>ValueError\<close> for every other length.
\<close>

definition AES_new :: "byte list \<Rightarrow> error + byte list" where
  "AES_new key =
     (if length key = 16 \<or> length key = 24 \<or> length key = 32 then Inr key
      else Inl ValueError)"

subsection \<open>Packing and unpacking of big-endian 64-bit integers\<close>

text \<open>
  \<^verbatim>\<open>struct.pack('>Q', v)\<close> raises \<^verbatim>\<open>struct.error\<close> unless \<open>0 \<le> v < 2^64\<close>.
  \<open>be64 v\<close> lists the eight bytes of \<open>v\<close>, most significant first.
\<close>

definition be64 :: "int \<Rightarrow> byte list" where
  "be64 v = map (\<lambda>i. word_of_int (v div 2 ^ (8 * i))) [7, 6, 5, 4, 3, 2, 1, 0 :: nat]"

definition pack_Q :: "int \<Rightarrow> error + byte list" where
  "pack_Q v = (if 0 \<le> v \<and> v < 2 ^ 64 then Inr (be64 v) else Inl StructError)"

text \<open>\<^verbatim>\<open>struct.pack_into('>Q', buf, offset, v)\<close> on a buffer that is long enough.\<close>

definition pack_into_Q :: "byte list \<Rightarrow> nat \<Rightarrow> int \<Rightarrow> error + byte list" where
  "pack_into_Q buf off v =
     (if length buf < off + 8 then Inl StructError
      else case pack_Q v of
             Inl e \<Rightarrow> Inl e
           | Inr bs \<Rightarrow> Inr (take off buf @ bs @ drop (off + 8) buf))"

text \<open>\<^verbatim>\<open>struct.pack('>QQQ', low, high, n)\<close>.\<close>

definition pack_QQQ :: "int \<Rightarrow> int \<Rightarrow> int \<Rightarrow> error + byte list" where
  "pack_QQQ a b c =
     (case pack_Q a of Inl e \<Rightarrow> Inl e | Inr x \<Rightarrow>
      case pack_Q b of Inl e \<Rightarrow> Inl e | Inr y \<Rightarrow>
      case pack_Q c of Inl e \<Rightarrow> Inl e | Inr z \<Rightarrow> Inr (x @ y @ z))"

text \<open>
  \<^verbatim>\<open>struct.unpack('>Q', bs)[0]\<close>: the value of the bytes read most significant first.
  It is applied to the first eight bytes of a cipher block or of a digest only.
\<close>

definition unpack_Q :: "byte list \<Rightarrow> int" where
  "unpack_Q bs = foldl (\<lambda>a b. a * 256 + uint b) 0 bs"

subsection \<open>Ranges and conversions of the runtime\<close>

text \<open>
  \<^verbatim>\<open>list(range(start, stop))\<close> and \<^verbatim>\<open>xs.extend(range(start, stop))\<close> ask the range for its
  length first, and a length above \<^verbatim>\<open>sys.maxsize\<close> (\<open>2\<^sup>6\<^sup>3 - 1\<close> on a 64-bit
  interpreter) raises \<^verbatim>\<open>OverflowError\<close>. Iterating over a range in a \<^verbatim>\<open>for\<close> loop does
  not ask for the length. Exhaustion of memory by a list that is built is outside the
  model.
\<close>

definition py_range_list :: "int \<Rightarrow> int \<Rightarrow> error + int list" where
  "py_range_list start stop =
     (if 2 ^ 63 \<le> stop - start then Inl OverflowError else Inr [start..stop - 1])"

text \<open>
  The conversion of an \<^verbatim>\<open>int\<close> to a \<^verbatim>\<open>float\<close> raises \<^verbatim>\<open>OverflowError\<close> when the integer,
  rounded to 53 significant bits, is \<open>2\<^sup>1\<^sup>0\<^sup>2\<^sup>4\<close> or more in magnitude; the largest double
  is \<open>2\<^sup>1\<^sup>0\<^sup>2\<^sup>4 - 2\<^sup>9\<^sup>7\<^sup>1\<close>.
\<close>

definition float_of_int_overflows :: "int \<Rightarrow> bool" where
  "float_of_int_overflows n \<longleftrightarrow> 2 ^ 1024 - 2 ^ 970 \<le> \<bar>n\<bar>"

subsection \<open>Double-precision results\<close>

text \<open>
  Two statements below depend on how a floating-point result is rounded:
  \<^verbatim>\<open>get_expected_preimage_size\<close> divides two Python integers with \<^verbatim>\<open>/\<close> and takes
  \<^verbatim>\<open>math.ceil\<close> of the quotient, and the sampler compares \<open>(r >> 11) + 0.5\<close>, scaled by
  \<open>2\<^sup>-\<^sup>5\<^sup>3\<close>, with \<open>1.0\<close>. IEEE-754 arithmetic, which CPython uses for \<^verbatim>\<open>float\<close>, returns
  the double nearest to the exact result, a tie going to the double with an even
  significand. A finite double is represented here by its value, a rational number.
\<close>

text \<open>The integer nearest to \<open>a / b\<close> for \<open>b > 0\<close>, a tie going to the even neighbour.\<close>

definition round_half_even_div :: "int \<Rightarrow> int \<Rightarrow> int" where
  "round_half_even_div a b =
     (let q = a div b; r = a mod b
      in if 2 * r < b then q else if b < 2 * r then q + 1 else if even q then q else q + 1)"

text \<open>
  For positive \<open>a\<close> and \<open>b\<close>, the exponent \<open>e\<close> with \<open>2^e \<le> a / b < 2^(e + 1)\<close>, from
  the bit lengths of \<open>a\<close> and \<open>b\<close>.
\<close>

definition binary_exponent :: "int \<Rightarrow> int \<Rightarrow> int" where
  "binary_exponent a b =
     bitlen a - bitlen b -
       (if a * 2 ^ nat (bitlen b) < b * 2 ^ nat (bitlen a) then 1 else 0)"

text \<open>
  The double nearest to \<open>a / b\<close> for positive \<open>a\<close> and \<open>b\<close>: 53 significant bits, the
  unit in the last place being \<open>2^(e - 52)\<close>, and \<open>2^(-1074)\<close> in the subnormal range.
\<close>

definition round_binary64 :: "int \<Rightarrow> int \<Rightarrow> rat" where
  "round_binary64 a b =
     (let e = max (binary_exponent a b) (- 1022);
          s = e - 52
      in if 0 \<le> s then of_int (round_half_even_div a (b * 2 ^ nat s) * 2 ^ nat s)
         else of_int (round_half_even_div (a * 2 ^ nat (- s)) b) / 2 ^ nat (- s))"

text \<open>
  \<^verbatim>\<open>a / b\<close> on two \<^verbatim>\<open>int\<close>s: \<^verbatim>\<open>ZeroDivisionError\<close> for \<open>b = 0\<close>, \<^verbatim>\<open>OverflowError\<close>
  when the rounded quotient does not fit a double.
\<close>

definition int_truediv :: "int \<Rightarrow> int \<Rightarrow> error + rat" where
  "int_truediv a b =
     (if b = 0 then Inl ZeroDivisionError
      else if a = 0 then Inr 0
      else
        let v = round_binary64 \<bar>a\<bar> \<bar>b\<bar>
        in if 2 ^ 1024 \<le> v then Inl OverflowError
           else Inr (if (a < 0) = (b < 0) then v else - v))"

text \<open>
  The double nearest to a rational number, ties to even: the result that IEEE-754
  prescribes for \<open>+\<close>, \<open>-\<close>, \<open>*\<close>, \<open>/\<close> and for the conversion of an integer or a
  decimal literal, where the exact result is in the range of the finite doubles.
\<close>

definition binary64 :: "rat \<Rightarrow> rat" where
  "binary64 x =
     (if x = 0 then 0
      else
        let (a, b) = quotient_of x;
            v = round_binary64 \<bar>a\<bar> b
        in if 0 < a then v else - v)"

text \<open>
  The correctly rounded square root. \<open>isqrt_between lo hi n\<close> is the integer square root
  of \<open>n\<close> by bisection, for \<open>lo\<^sup>2 \<le> n < hi\<^sup>2\<close>.
\<close>

function isqrt_between :: "int \<Rightarrow> int \<Rightarrow> int \<Rightarrow> int" where
  "isqrt_between lo hi n =
     (if hi - lo \<le> 1 then lo
      else
        let mid = (lo + hi) div 2
        in if mid * mid \<le> n then isqrt_between mid hi n else isqrt_between lo mid n)"
  by pat_completeness auto
termination
  by (relation "measure (\<lambda>(lo, hi, n). nat (hi - lo))") auto

declare isqrt_between.simps [simp del]

definition binary64_sqrt :: "rat \<Rightarrow> rat" where
  "binary64_sqrt x =
     (if x \<le> 0 then 0
      else
        let (a, b) = quotient_of x;
            s = binary_exponent a b div 2 - 52;
            y = (if 0 \<le> s then x / 4 ^ nat s else x * 4 ^ nat (- s));
            k = isqrt_between 0 (\<lfloor>y\<rfloor> + 1) \<lfloor>y\<rfloor>;
            t = of_int (k * k + k) + 1 / 4;
            M = (if y < t then k else if t < y then k + 1 else if even k then k else k + 1)
        in if 0 \<le> s then of_int M * 2 ^ nat s else of_int M / 2 ^ nat (- s))"

text \<open>Python's \<^verbatim>\<open>round(x)\<close> on a float: the nearest integer, ties to even.\<close>

definition round_half_even :: "rat \<Rightarrow> int" where
  "round_half_even x = (let (a, b) = quotient_of x in round_half_even_div a b)"

section \<open>Counter-mode generator (\<^verbatim>\<open>DeterministicRNG\<close>)\<close>

record rng =
  rng_key :: "byte list"
  counter :: int

definition DeterministicRNG_init :: "byte list \<Rightarrow> error + rng" where
  "DeterministicRNG_init key =
     (let key1 = (if length key < 16 then key @ replicate (16 - length key) 0 else key);
          key2 = take 16 key1
      in case AES_new key2 of
           Inl e \<Rightarrow> Inl e
         | Inr k \<Rightarrow> Inr \<lparr>rng_key = k, counter = 0\<rparr>)"

definition uint64 :: "'f prims \<Rightarrow> rng \<Rightarrow> error + (int \<times> rng)" where
  "uint64 P s =
     (case pack_into_Q (replicate 16 0) 0 (counter s) of Inl e \<Rightarrow> Inl e | Inr b1 \<Rightarrow>
      case pack_into_Q b1 8 (drop_bit 32 (counter s)) of Inl e \<Rightarrow> Inl e | Inr input_block \<Rightarrow>
        let output_block = aes_encrypt P (rng_key s) input_block
        in Inr (unpack_Q (take 8 output_block), s\<lparr>counter := counter s + 1\<rparr>))"

text \<open>The value that \<^verbatim>\<open>uint64\<close> returns when the counter is \<open>c\<close>.\<close>

definition uint64_output :: "'f prims \<Rightarrow> byte list \<Rightarrow> int \<Rightarrow> int" where
  "uint64_output P key c =
     unpack_Q (take 8 (aes_encrypt P key (be64 c @ be64 (drop_bit 32 c))))"

lemma uint64_Inr_counter:
  "uint64 P s = Inr (r, s') \<Longrightarrow>
     0 \<le> counter s \<and> counter s < 2 ^ 64 \<and> counter s' = counter s + 1"
  by (auto simp: uint64_def pack_into_Q_def pack_Q_def Let_def split: sum.splits if_splits)

text \<open>The rejection loop of \<^verbatim>\<open>uint64_n\<close>: draw until a value below the threshold appears.\<close>

function uint64_n_loop :: "'f prims \<Rightarrow> rng \<Rightarrow> int \<Rightarrow> int \<Rightarrow> error + (int \<times> rng)" where
  "uint64_n_loop P s n threshold =
     (case uint64 P s of
        Inl e \<Rightarrow> Inl e
      | Inr (r, s') \<Rightarrow>
          if r < threshold then Inr (r mod n, s') else uint64_n_loop P s' n threshold)"
  by pat_completeness auto
termination
  by (relation "measure (\<lambda>(P, s, n, t). nat (2 ^ 64 - counter s))")
     (auto dest!: uint64_Inr_counter)

declare uint64_n_loop.simps [simp del]

definition uint64_n :: "'f prims \<Rightarrow> rng \<Rightarrow> int \<Rightarrow> error + (int \<times> rng)" where
  "uint64_n P s n =
     (if n = 0 then Inr (0, s)
      else if n = 1 then Inr (0, s)
      else if n AND (n - 1) = 0 then
        (case uint64 P s of Inl e \<Rightarrow> Inl e | Inr (r, s') \<Rightarrow> Inr (r AND (n - 1), s'))
      else
        let max_val = push_bit 64 1 - 1;
            threshold = max_val - (max_val mod n)
        in uint64_n_loop P s n threshold)"

section \<open>Table-based permutation (\<^verbatim>\<open>TablePRP\<close>)\<close>

text \<open>
  Python list indexing: a negative index counts from the end, an index outside the list
  raises \<^verbatim>\<open>IndexError\<close>. \<open>py_index xs i\<close> is the position that \<^verbatim>\<open>xs[i]\<close> refers to.
\<close>

definition py_index :: "'a list \<Rightarrow> int \<Rightarrow> error + nat" where
  "py_index xs i =
     (if 0 \<le> i \<and> i < int (length xs) then Inr (nat i)
      else if i < 0 \<and> - int (length xs) \<le> i then Inr (nat (int (length xs) + i))
      else Inl IndexError)"

text \<open>
  \<^verbatim>\<open>perm[i], perm[j] = perm[j], perm[i]\<close>: both reads happen first, then the two writes.
\<close>

definition swap_items :: "int list \<Rightarrow> int \<Rightarrow> int \<Rightarrow> error + int list" where
  "swap_items perm i j =
     (case py_index perm j of Inl e \<Rightarrow> Inl e | Inr kj \<Rightarrow>
      case py_index perm i of Inl e \<Rightarrow> Inl e | Inr ki \<Rightarrow>
        let a = perm ! kj; b = perm ! ki; perm1 = perm[ki := a]
        in Inr (perm1[kj := b]))"

text \<open>The loop \<^verbatim>\<open>for i in range(domain - 1, 0, -1)\<close> of the shuffle.\<close>

function fisher_yates :: "'f prims \<Rightarrow> rng \<Rightarrow> int \<Rightarrow> int list \<Rightarrow> error + int list" where
  "fisher_yates P s i perm =
     (if i > 0 then
        (case uint64_n P s (i + 1) of
           Inl e \<Rightarrow> Inl e
         | Inr (j, s') \<Rightarrow>
             (case swap_items perm i j of
                Inl e \<Rightarrow> Inl e
              | Inr perm' \<Rightarrow> fisher_yates P s' (i - 1) perm'))
      else Inr perm)"
  by pat_completeness auto
termination
  by (relation "measure (\<lambda>(P, s, i, perm). nat i)") auto

declare fisher_yates.simps [simp del]

text \<open>
  The loop \<^verbatim>\<open>for x in range(domain)\<close> that fills the two dictionaries; the list argument
  is what remains of \<^verbatim>\<open>range(domain)\<close>.
\<close>

fun build_tables ::
  "int list \<Rightarrow> int list \<Rightarrow> (int \<rightharpoonup> int) \<times> (int \<rightharpoonup> int) \<Rightarrow> error + ((int \<rightharpoonup> int) \<times> (int \<rightharpoonup> int))" where
  "build_tables perm [] (f, g) = Inr (f, g)"
| "build_tables perm (x # xs) (f, g) =
     (case py_index perm x of
        Inl e \<Rightarrow> Inl e
      | Inr px \<Rightarrow> let y = perm ! px in build_tables perm xs (f(x \<mapsto> y), g(y \<mapsto> x)))"

definition generate_permutation ::
  "'f prims \<Rightarrow> int \<Rightarrow> byte list \<Rightarrow> error + ((int \<rightharpoonup> int) \<times> (int \<rightharpoonup> int))" where
  "generate_permutation P domain k =
     (case py_range_list 0 domain of
        Inl e \<Rightarrow> Inl e
      | Inr perm \<Rightarrow>
          (case DeterministicRNG_init k of
             Inl e \<Rightarrow> Inl e
           | Inr rng \<Rightarrow>
               (case fisher_yates P rng (domain - 1) perm of
                  Inl e \<Rightarrow> Inl e
                | Inr perm' \<Rightarrow> build_tables perm' [0..domain - 1] (Map.empty, Map.empty))))"

record table_prp =
  prp_domain :: int
  prp_key :: "byte list"
  forward_table :: "int \<rightharpoonup> int"
  inverse_table :: "int \<rightharpoonup> int"

definition TablePRP_init :: "'f prims \<Rightarrow> int \<Rightarrow> byte list \<Rightarrow> error + table_prp" where
  "TablePRP_init P domain k =
     (if domain = 0 then Inl ValueError
      else if length k \<noteq> 16 then Inl ValueError
      else case generate_permutation P domain k of
             Inl e \<Rightarrow> Inl e
           | Inr (f, g) \<Rightarrow>
               Inr \<lparr>prp_domain = domain, prp_key = k, forward_table = f, inverse_table = g\<rparr>)"

definition prp_forward :: "table_prp \<Rightarrow> int \<Rightarrow> error + int" where
  "prp_forward t x =
     (if x \<ge> prp_domain t \<or> x < 0 then Inl ValueError
      else case forward_table t x of None \<Rightarrow> Inl KeyError | Some y \<Rightarrow> Inr y)"

definition prp_inverse :: "table_prp \<Rightarrow> int \<Rightarrow> error + int" where
  "prp_inverse t y =
     (if y \<ge> prp_domain t \<or> y < 0 then Inl ValueError
      else case inverse_table t y of None \<Rightarrow> Inl KeyError | Some x \<Rightarrow> Inr x)"

text \<open>
  \<^verbatim>\<open>verify_bijection\<close>: \<^verbatim>\<open>len\<close> of a dictionary is the number of its keys; a missing key
  raises \<^verbatim>\<open>KeyError\<close>.
\<close>

fun verify_loop :: "table_prp \<Rightarrow> int list \<Rightarrow> error + bool" where
  "verify_loop t [] = Inr True"
| "verify_loop t (x # xs) =
     (case forward_table t x of
        None \<Rightarrow> Inl KeyError
      | Some y \<Rightarrow>
          (case inverse_table t y of
             None \<Rightarrow> Inl KeyError
           | Some x_recovered \<Rightarrow> if x \<noteq> x_recovered then Inr False else verify_loop t xs))"

definition verify_bijection :: "table_prp \<Rightarrow> error + bool" where
  "verify_bijection t =
     (if int (card (dom (forward_table t))) \<noteq> prp_domain t then Inr False
      else if int (card (dom (inverse_table t))) \<noteq> prp_domain t then Inr False
      else verify_loop t [0..prp_domain t - 1])"

section \<open>The iPRF (\<^verbatim>\<open>iprf.py\<close>)\<close>

subsection \<open>Node identifier and block PRF\<close>

definition encode_node :: "'f prims \<Rightarrow> int \<Rightarrow> int \<Rightarrow> int \<Rightarrow> error + int" where
  "encode_node P low high n =
     (case pack_QQQ low high n of
        Inl e \<Rightarrow> Inl e
      | Inr buf \<Rightarrow> Inr (unpack_Q (take 8 (sha256 P buf))))"

definition prf_eval :: "'f prims \<Rightarrow> byte list \<Rightarrow> int \<Rightarrow> error + int" where
  "prf_eval P k x =
     (case pack_into_Q (replicate 16 0) 8 (x AND 0xFFFFFFFFFFFFFFFF) of
        Inl e \<Rightarrow> Inl e
      | Inr input_block \<Rightarrow>
          let output_block = aes_encrypt P k input_block
          in Inr (unpack_Q (take 8 output_block)))"

subsection \<open>Binomial sampling\<close>

text \<open>
  Python's \<^verbatim>\<open>min(a, b)\<close> and \<^verbatim>\<open>max(a, b)\<close> on floats return the first argument unless
  the second is strictly smaller (larger).
\<close>

definition fl_min :: "'f prims \<Rightarrow> 'f \<Rightarrow> 'f \<Rightarrow> 'f" where
  "fl_min P a b = (if fl_lt P b a then b else a)"

definition fl_max :: "'f prims \<Rightarrow> 'f \<Rightarrow> 'f \<Rightarrow> 'f" where
  "fl_max P a b = (if fl_lt P a b then b else a)"

definition inv_normal_cdf :: "'f prims \<Rightarrow> 'f \<Rightarrow> 'f" where
  "inv_normal_cdf P p =
     (if fl_le P p (fl_int P 0) then fl_lit P (- 100) (- 1)
      else if fl_le P (fl_int P 1) p then fl_lit P 100 (- 1)
      else
        let a0 = fl_lit P 250662823884 (- 11);
            a1 = fl_lit P (- 1861500062529) (- 11);
            a2 = fl_lit P 4139119773534 (- 11);
            a3 = fl_lit P (- 2544106049637) (- 11);
            b0 = fl_lit P (- 847351093090) (- 11);
            b1 = fl_lit P 2308336743743 (- 11);
            b2 = fl_lit P (- 2106224101826) (- 11);
            b3 = fl_lit P 313082909833 (- 11);
            y = fl_sub P p (fl_lit P 5 (- 1))
        in if fl_lt P (fl_abs P y) (fl_lit P 42 (- 2)) then
             let r = fl_mul P y y;
                 num = fl_add P (fl_mul P (fl_add P (fl_mul P (fl_add P (fl_mul P a3 r) a2) r) a1) r) a0;
                 den = fl_add P (fl_mul P (fl_add P (fl_mul P (fl_add P (fl_mul P
                          (fl_add P (fl_mul P b3 r) b2) r) b1) r) b0) r) (fl_int P 1)
             in fl_div P (fl_mul P y num) den
           else if fl_lt P (fl_int P 0) y then fl_lit P 20 (- 1) else fl_lit P (- 20) (- 1))"

text \<open>
  \<^verbatim>\<open>_normal_approx_binomial\<close>. The product \<^verbatim>\<open>n * p\<close> converts the integer \<open>n\<close> to a float
  first.
\<close>

definition normal_approx_binomial :: "'f prims \<Rightarrow> int \<Rightarrow> 'f \<Rightarrow> 'f \<Rightarrow> error + int" where
  "normal_approx_binomial P n p u =
     (if float_of_int_overflows n then Inl OverflowError
      else
        let mean = fl_mul P (fl_int P n) p;
            variance = fl_mul P (fl_mul P (fl_int P n) p) (fl_sub P (fl_int P 1) p);
            stddev = fl_sqrt P variance;
            u_clamped = fl_max P (fl_lit P 1 (- 3)) (fl_min P (fl_lit P 999 (- 3)) u);
            z = inv_normal_cdf P u_clamped;
            result = fl_add P mean (fl_mul P z stddev)
        in Inr (max 0 (min n (fl_round P result))))"

text \<open>
  The loop \<^verbatim>\<open>for k in range(n)\<close> of the exact inverse CDF. It runs for \<open>n \<le> 100\<close> only,
  so the integers \<open>n - k\<close> and \<open>k + 1\<close> that it converts to floats are at most 100.
\<close>

function cdf_loop :: "'f prims \<Rightarrow> int \<Rightarrow> 'f \<Rightarrow> 'f \<Rightarrow> 'f \<Rightarrow> 'f \<Rightarrow> 'f \<Rightarrow> int \<Rightarrow> int" where
  "cdf_loop P n p q u prob cum_prob k =
     (if k < n then
        let prob' = fl_div P (fl_mul P (fl_div P (fl_mul P prob (fl_int P (n - k)))
                      (fl_int P (k + 1))) p) q;
            cum_prob' = fl_add P cum_prob prob'
        in if fl_le P u cum_prob' then k + 1
           else cdf_loop P n p q u prob' cum_prob' (k + 1)
      else n)"
  by pat_completeness auto
termination
  by (relation "measure (\<lambda>(P, n, p, q, u, prob, cum_prob, k). nat (n - k))") auto

declare cdf_loop.simps [simp del]

text \<open>
  The block of \<^verbatim>\<open>_binomial_inverse_cdf\<close> for small \<open>n\<close>: the exact CDF computation.
  \<^verbatim>\<open>math.pow(q, n)\<close> converts the integer \<open>n\<close> to a float.
\<close>

definition exact_cdf_path :: "'f prims \<Rightarrow> int \<Rightarrow> 'f \<Rightarrow> 'f \<Rightarrow> error + int" where
  "exact_cdf_path P n p u =
     (if float_of_int_overflows n then Inl OverflowError
      else
        let q = fl_sub P (fl_lit P 1 0) p;
            prob = fl_pow P q (fl_int P n);
            cum_prob = fl_add P (fl_lit P 0 0) prob
        in if fl_le P u cum_prob then Inr 0
           else Inr (cdf_loop P n p q u prob cum_prob 0))"

definition binomial_inverse_cdf :: "'f prims \<Rightarrow> int \<Rightarrow> 'f \<Rightarrow> 'f \<Rightarrow> error + int" where
  "binomial_inverse_cdf P n p u =
     (if fl_le P u (fl_lit P 0 0) then Inr 0
      else if fl_le P (fl_lit P 1 0) u then Inr n
      else if fl_eq P p (fl_int P 0) then Inr 0
      else if fl_eq P p (fl_int P 1) then Inr n
      else if n = 0 then Inr 0
      else if n > 100 then normal_approx_binomial P n p u
      else exact_cdf_path P n p u)"

definition sample_binomial :: "'f prims \<Rightarrow> byte list \<Rightarrow> int \<Rightarrow> int \<Rightarrow> 'f \<Rightarrow> error + int" where
  "sample_binomial P k node_id n p =
     (case prf_eval P k node_id of
        Inl e \<Rightarrow> Inl e
      | Inr prf_output \<Rightarrow>
          let INV_TWO_TO_53 = fl_div P (fl_lit P 1 0) (fl_int P (push_bit 53 1));
              uniform = fl_mul P (fl_add P (fl_int P (drop_bit 11 prf_output)) (fl_lit P 5 (- 1)))
                          INV_TWO_TO_53
          in binomial_inverse_cdf P n p uniform)"

text \<open>
  The conversion of a PRF output \<open>r\<close> to a float that \<^verbatim>\<open>_sample_binomial\<close> performs,
  \<^verbatim>\<open>((r >> 11) + 0.5) * INV_TWO_TO_53\<close>, as a function of \<open>r\<close>.
\<close>

definition prf_uniform :: "'f prims \<Rightarrow> int \<Rightarrow> 'f" where
  "prf_uniform P r =
     fl_mul P (fl_add P (fl_int P (drop_bit 11 r)) (fl_lit P 5 (- 1)))
       (fl_div P (fl_lit P 1 0) (fl_int P (push_bit 53 1)))"

text \<open>
  The value that the specification gives for the normal-approximation path, in its own
  words: \<open>clamp(round(n p + inv_normal_cdf(clamp(u, 0.001, 0.999)) \<cdot> sqrt(n p (1 - p))), 0, n)\<close>.
\<close>

definition spec_normal_sample :: "'f prims \<Rightarrow> int \<Rightarrow> 'f \<Rightarrow> 'f \<Rightarrow> int" where
  "spec_normal_sample P n p u =
     max 0 (min n (fl_round P
       (fl_add P (fl_mul P (fl_int P n) p)
          (fl_mul P
             (inv_normal_cdf P (fl_max P (fl_lit P 1 (- 3)) (fl_min P (fl_lit P 999 (- 3)) u)))
             (fl_sqrt P (fl_mul P (fl_mul P (fl_int P n) p) (fl_sub P (fl_int P 1) p)))))))"

subsection \<open>Forward evaluation\<close>

text \<open>The \<^verbatim>\<open>while low < high\<close> loop of \<^verbatim>\<open>_trace_ball\<close>.\<close>

function trace_loop ::
  "'f prims \<Rightarrow> byte list \<Rightarrow> int \<Rightarrow> int \<Rightarrow> int \<Rightarrow> int \<Rightarrow> int \<Rightarrow> error + int" where
  "trace_loop P k n low high ball_count ball_index =
     (if low < high then
        let mid = (low + high) div 2;
            left_bins = mid - low + 1;
            total_bins = high - low + 1;
            p = fl_truediv P left_bins total_bins
        in case encode_node P low high n of
             Inl e \<Rightarrow> Inl e
           | Inr node_id \<Rightarrow>
               (case sample_binomial P k node_id ball_count p of
                  Inl e \<Rightarrow> Inl e
                | Inr left_count \<Rightarrow>
                    if ball_index < left_count
                    then trace_loop P k n low mid left_count ball_index
                    else trace_loop P k n (mid + 1) high (ball_count - left_count)
                           (ball_index - left_count))
      else Inr low)"
  by pat_completeness auto
termination
  by (relation "measure (\<lambda>(P, k, n, low, high, ball_count, ball_index). nat (high - low))") auto

declare trace_loop.simps [simp del]

definition trace_ball :: "'f prims \<Rightarrow> byte list \<Rightarrow> int \<Rightarrow> int \<Rightarrow> int \<Rightarrow> error + int" where
  "trace_ball P k x_prime n m =
     (if m = 1 then Inr 0 else trace_loop P k n 0 (m - 1) n x_prime)"

subsection \<open>Inverse evaluation\<close>

text \<open>
  \<^verbatim>\<open>_enumerate_recursive\<close> appends to the list \<open>result\<close> in place; the model returns the
  extended list. \<^verbatim>\<open>result.extend(range(start_idx, end_idx + 1))\<close> appends the integers
  from \<open>start_idx\<close> to \<open>end_idx\<close>, unless there are \<open>2\<^sup>6\<^sup>3\<close> of them or more.
\<close>

function enumerate_recursive ::
  "'f prims \<Rightarrow> byte list \<Rightarrow> int \<Rightarrow> int \<Rightarrow> int \<Rightarrow> int \<Rightarrow> int \<Rightarrow> int \<Rightarrow> int \<Rightarrow> int list
     \<Rightarrow> error + int list" where
  "enumerate_recursive P k target_bin low high original_n ball_count start_idx end_idx result =
     (if low > high \<or> start_idx > end_idx \<or> ball_count = 0 then Inr result
      else if low = high then
        (if low = target_bin then
           (case py_range_list start_idx (end_idx + 1) of
              Inl e \<Rightarrow> Inl e
            | Inr balls \<Rightarrow> Inr (result @ balls))
         else Inr result)
      else
        let mid = (low + high) div 2;
            left_bins = mid - low + 1;
            total_bins = high - low + 1;
            p = fl_truediv P left_bins total_bins
        in case encode_node P low high original_n of
             Inl e \<Rightarrow> Inl e
           | Inr node_id \<Rightarrow>
               (case sample_binomial P k node_id ball_count p of
                  Inl e \<Rightarrow> Inl e
                | Inr left_count \<Rightarrow>
                    let right_count = ball_count - left_count;
                        split_idx = start_idx + left_count
                    in if target_bin \<le> mid then
                         (if left_count > 0 \<and> split_idx > start_idx
                          then enumerate_recursive P k target_bin low mid original_n left_count
                                 start_idx (split_idx - 1) result
                          else Inr result)
                       else
                         (if right_count > 0 \<and> split_idx \<le> end_idx
                          then enumerate_recursive P k target_bin (mid + 1) high original_n
                                 right_count split_idx end_idx result
                          else Inr result)))"
  by pat_completeness auto
termination
  by (relation "measure (\<lambda>(P, k, t, low, high, n, c, s, e, r). nat (high - low))") auto

declare enumerate_recursive.simps [simp del]

definition enumerate_balls_in_bin ::
  "'f prims \<Rightarrow> byte list \<Rightarrow> int \<Rightarrow> int \<Rightarrow> int \<Rightarrow> error + int list" where
  "enumerate_balls_in_bin P k target_bin n m =
     (if m = 1 then py_range_list 0 n
      else case enumerate_recursive P k target_bin 0 (m - 1) n n 0 (n - 1) [] of
             Inl e \<Rightarrow> Inl e
           | Inr result \<Rightarrow> Inr (sort result))"

subsection \<open>The instance\<close>

record iprf =
  iprf_key :: "byte list"
  iprf_domain :: int
  range_size :: int
  tree_depth :: int

definition IPRF_init :: "'f prims \<Rightarrow> byte list \<Rightarrow> int \<Rightarrow> int \<Rightarrow> error + iprf" where
  "IPRF_init P k domain range_sz =
     (if length k \<noteq> 16 then Inl ValueError
      else if domain = 0 \<or> range_sz = 0 then Inl ValueError
      else
        let depth = (if range_sz > 1 then ceil_log2 P range_sz else 0)
        in case AES_new k of
             Inl e \<Rightarrow> Inl e
           | Inr _ \<Rightarrow> Inr \<lparr>iprf_key = k, iprf_domain = domain, range_size = range_sz,
                       tree_depth = depth\<rparr>)"

definition iprf_forward :: "'f prims \<Rightarrow> iprf \<Rightarrow> int \<Rightarrow> error + int" where
  "iprf_forward P s x =
     (if x \<ge> iprf_domain s then Inr 0
      else trace_ball P (iprf_key s) x (iprf_domain s) (range_size s))"

definition iprf_inverse :: "'f prims \<Rightarrow> iprf \<Rightarrow> int \<Rightarrow> error + int list" where
  "iprf_inverse P s y =
     (if y \<ge> range_size s then Inr []
      else enumerate_balls_in_bin P (iprf_key s) y (iprf_domain s) (range_size s))"

text \<open>\<^verbatim>\<open>int(math.ceil(self.domain / self.range_size))\<close>.\<close>

definition get_expected_preimage_size :: "iprf \<Rightarrow> error + int" where
  "get_expected_preimage_size s =
     (case int_truediv (iprf_domain s) (range_size s) of
        Inl e \<Rightarrow> Inl e
      | Inr q \<Rightarrow> Inr \<lceil>q\<rceil>)"

text \<open>
  The first \<open>k\<close> outputs of a generator: the output stream that a sequence of calls to
  \<^verbatim>\<open>uint64\<close> observes.
\<close>

fun draws :: "'f prims \<Rightarrow> rng \<Rightarrow> nat \<Rightarrow> error + int list" where
  "draws P s 0 = Inr []"
| "draws P s (Suc k) =
     (case uint64 P s of
        Inl e \<Rightarrow> Inl e
      | Inr (r, s') \<Rightarrow> (case draws P s' k of Inl e \<Rightarrow> Inl e | Inr rs \<Rightarrow> Inr (r # rs)))"

definition rng_stream :: "'f prims \<Rightarrow> byte list \<Rightarrow> nat \<Rightarrow> error + int list" where
  "rng_stream P key k =
     (case DeterministicRNG_init key of Inl e \<Rightarrow> Inl e | Inr s \<Rightarrow> draws P s k)"

text \<open>The first 16 bytes of a key after zero-padding on the right.\<close>

definition pad16 :: "byte list \<Rightarrow> byte list" where
  "pad16 key = take 16 (key @ replicate (16 - length key) 0)"

section \<open>Binary64 arithmetic as primitives\<close>

text \<open>
  The \<^verbatim>\<open>float\<close> of CPython is the IEEE-754 binary64 format: the conversion of an integer
  or of a decimal literal, \<open>+\<close>, \<open>-\<close>, \<open>*\<close>, \<open>/\<close> and \<^verbatim>\<open>math.sqrt\<close> return the double nearest
  to the exact result, and \<^verbatim>\<open>round\<close> returns the nearest integer, a tie going to the
  even one. \<open>binary64_prims\<close> is the record of primitives with this arithmetic, on finite
  values. IEEE-754 does not fix the last bit of \<^verbatim>\<open>math.pow\<close> and \<^verbatim>\<open>math.log2\<close>, which come
  from the C library: they stay arguments, as the cipher and the hash do.
\<close>

definition binary64_prims ::
  "(byte list \<Rightarrow> byte list \<Rightarrow> byte list) \<Rightarrow> (byte list \<Rightarrow> byte list) \<Rightarrow>
     (rat \<Rightarrow> rat \<Rightarrow> rat) \<Rightarrow> (int \<Rightarrow> int) \<Rightarrow> rat prims" where
  "binary64_prims cipher hash pw clog =
     \<lparr> aes_encrypt = cipher,
       sha256 = hash,
       ceil_log2 = clog,
       fl_int = (\<lambda>n. binary64 (of_int n)),
       fl_lit = (\<lambda>m e. binary64 (if 0 \<le> e then of_int m * 10 ^ nat e
                                  else of_int m / 10 ^ nat (- e))),
       fl_truediv = (\<lambda>a b. binary64 (of_int a / of_int b)),
       fl_add = (\<lambda>x y. binary64 (x + y)),
       fl_sub = (\<lambda>x y. binary64 (x - y)),
       fl_mul = (\<lambda>x y. binary64 (x * y)),
       fl_div = (\<lambda>x y. binary64 (x / y)),
       fl_eq = (=), fl_lt = (<), fl_le = (\<le>),
       fl_abs = abs,
       fl_sqrt = binary64_sqrt,
       fl_pow = pw,
       fl_round = round_half_even \<rparr>"

text \<open>
  The value that the specification gives for the conversion of a PRF output \<open>r\<close>: the
  double nearest to \<open>((r >> 11) + 0.5) \<cdot> 2\<^sup>-\<^sup>5\<^sup>3\<close>.
\<close>

definition spec_uniform :: "int \<Rightarrow> rat" where
  "spec_uniform r = binary64 ((of_int (drop_bit 11 r) + 1 / 2) / 2 ^ 53)"

section \<open>Primitives for closed instances\<close>

text \<open>
  Closed instances of the theorems need a concrete record of primitives. \<open>demo_prims\<close>
  has the binary64 arithmetic and four stand-ins. The cipher (XOR with the key) and the
  hash have the right shape (16-byte blocks, 32-byte digests) but are not AES and
  SHA-256. \<open>pow_nearest\<close> is the correctly rounded power for an integral exponent, which
  \<^verbatim>\<open>math.pow\<close> returns in most cases but not in all. \<open>ceil_log2_nearest\<close> is
  \<^verbatim>\<open>int(math.ceil(math.log2(m)))\<close> for \<open>m \<ge> 2\<close> when \<^verbatim>\<open>math.log2\<close> returns the double
  nearest to the logarithm: with \<open>d\<close> the double nearest to \<open>m\<close>, \<open>2^E \<le> d < 2^(E + 1)\<close>
  and \<open>2^g \<le> E < 2^(g + 1)\<close>, the logarithm of \<open>d\<close> rounds to \<open>E\<close> exactly when
  \<open>d - 2^E\<close> is at most \<open>\<lfloor>2^(g - 1) ln 2\<rfloor>\<close> units of \<open>2^(E - 52)\<close>; so the result is 64
  for \<open>m = 2\<^sup>6\<^sup>4 + 1\<close>, as for \<open>m = 2\<^sup>6\<^sup>4\<close>. No general theorem depends on \<open>demo_prims\<close>,
  and no statement below gives a value of \<open>pow_nearest\<close>.
\<close>

definition xor_cipher :: "byte list \<Rightarrow> byte list \<Rightarrow> byte list" where
  "xor_cipher k b = map2 (XOR) k b"

definition demo_hash :: "byte list \<Rightarrow> byte list" where
  "demo_hash bs = take 32 (rev bs @ replicate 32 0)"

definition pow_nearest :: "rat \<Rightarrow> rat \<Rightarrow> rat" where
  "pow_nearest x y =
     (if 0 \<le> y then binary64 (x ^ nat \<lfloor>y\<rfloor>) else binary64 (1 / x ^ nat \<lfloor>- y\<rfloor>))"

definition ceil_log2_nearest :: "int \<Rightarrow> int" where
  "ceil_log2_nearest m =
     (let d = \<lfloor>binary64 (of_int m)\<rfloor>;
          E = bitlen d - 1;
          g = bitlen E - 1;
          units = (2 ^ nat g * 6931471805599453) div (2 * 10 ^ 16)
      in if (d - 2 ^ nat E) * 2 ^ 52 \<le> units * 2 ^ nat E then E else E + 1)"

definition demo_prims :: "rat prims" where
  "demo_prims = binary64_prims xor_cipher demo_hash pow_nearest ceil_log2_nearest"

text \<open>The permutation of \<open>[0, 5)\<close> that the stand-in cipher yields for the key of sevens.\<close>

definition demo_table :: table_prp where
  "demo_table =
     \<lparr>prp_domain = 5, prp_key = replicate 16 7,
          forward_table = [0 \<mapsto> 4, 1 \<mapsto> 3, 2 \<mapsto> 0, 3 \<mapsto> 2, 4 \<mapsto> 1],
          inverse_table = [4 \<mapsto> 0, 3 \<mapsto> 1, 0 \<mapsto> 2, 2 \<mapsto> 3, 1 \<mapsto> 4]\<rparr>"

section \<open>Properties of the generator\<close>

lemma length_be64: "length (be64 v) = 8"
  by (simp add: be64_def)

lemma drop32_bounds:
  assumes "0 \<le> (c::int)" and "c < 2 ^ 64"
  shows "0 \<le> drop_bit 32 c" and "drop_bit 32 c < 2 ^ 64"
  using assms by (simp_all add: drop_bit_eq_div pos_imp_zdiv_nonneg_iff)

lemma uint64_in_range:
  assumes "0 \<le> counter s" and "counter s < 2 ^ 64"
  shows "uint64 P s =
     Inr (unpack_Q (take 8 (aes_encrypt P (rng_key s)
              (be64 (counter s) @ be64 (drop_bit 32 (counter s))))),
          s\<lparr>counter := counter s + 1\<rparr>)"
  using assms drop32_bounds [OF assms]
  by (simp add: uint64_def pack_into_Q_def pack_Q_def length_be64 Let_def)

text \<open>
  C9. A call of \<^verbatim>\<open>uint64\<close> with counter \<open>c\<close> (a value that fits 64 bits) encrypts the
  16-byte block made of \<open>c\<close> as a big-endian 64-bit integer in bytes 0 to 7 and of
  \<open>c >> 32\<close> as a big-endian 64-bit integer in bytes 8 to 15, returns the first eight
  bytes of the ciphertext read as a big-endian integer, and leaves the counter at
  \<open>c + 1\<close>.
\<close>

theorem uint64_block_layout:
  assumes "0 \<le> counter s" and "counter s < 2 ^ 64"
  shows "\<exists>block out.
           length block = 16 \<and>
           take 8 block =
             map (\<lambda>i. word_of_int (counter s div 2 ^ (8 * i))) [7, 6, 5, 4, 3, 2, 1, 0 :: nat] \<and>
           drop 8 block =
             map (\<lambda>i. word_of_int ((counter s div 2 ^ 32) div 2 ^ (8 * i)))
               [7, 6, 5, 4, 3, 2, 1, 0 :: nat] \<and>
           out = aes_encrypt P (rng_key s) block \<and>
           uint64 P s =
             Inr (foldl (\<lambda>a b. a * 256 + uint b) 0 (take 8 out),
                  s\<lparr>counter := counter s + 1\<rparr>)"
proof (intro exI conjI)
  let ?block = "be64 (counter s) @ be64 (drop_bit 32 (counter s))"
  show "length ?block = 16" by (simp add: length_be64)
  show "take 8 ?block =
      map (\<lambda>i. word_of_int (counter s div 2 ^ (8 * i))) [7, 6, 5, 4, 3, 2, 1, 0 :: nat]"
    by (simp add: length_be64) (simp add: be64_def)
  show "drop 8 ?block =
      map (\<lambda>i. word_of_int ((counter s div 2 ^ 32) div 2 ^ (8 * i)))
        [7, 6, 5, 4, 3, 2, 1, 0 :: nat]"
    by (simp add: length_be64) (simp add: be64_def drop_bit_eq_div)
  show "aes_encrypt P (rng_key s) ?block = aes_encrypt P (rng_key s) ?block" ..
  show "uint64 P s =
      Inr (foldl (\<lambda>a b. a * 256 + uint b) 0 (take 8 (aes_encrypt P (rng_key s) ?block)),
           s\<lparr>counter := counter s + 1\<rparr>)"
    using uint64_in_range [OF assms, of P] by (simp add: unpack_Q_def)
qed

theorem uint64_block_layout_witness:
  "0 \<le> counter \<lparr>rng_key = replicate 16 0, counter = 5\<rparr> \<and>
   counter \<lparr>rng_key = replicate 16 0, counter = 5\<rparr> < 2 ^ 64 \<and>
   (\<exists>block out.
      length block = 16 \<and>
      take 8 block = [0, 0, 0, 0, 0, 0, 0, 5] \<and>
      drop 8 block = [0, 0, 0, 0, 0, 0, 0, 0] \<and>
      out = aes_encrypt demo_prims (replicate 16 0) block \<and>
      uint64 demo_prims \<lparr>rng_key = replicate 16 0, counter = 5\<rparr> =
        Inr (foldl (\<lambda>a b. a * 256 + uint b) 0 (take 8 out),
             \<lparr>rng_key = replicate 16 0, counter = 6\<rparr>))"
  using uint64_block_layout [of "\<lparr>rng_key = replicate 16 0, counter = 5\<rparr>" demo_prims]
  by simp

text \<open>
  C10. The constructor of the generator accepts a key of any length: the key it keeps is
  the given key zero-padded on the right to 16 bytes when it is shorter, and its first
  16 bytes when it is longer. Two keys with the same first 16 bytes after padding give
  the same generator, hence the same output stream.
\<close>

theorem DeterministicRNG_init_any_key:
  "(\<exists>s. DeterministicRNG_init key = Inr s \<and> counter s = 0 \<and> length (rng_key s) = 16 \<and>
        (length key < 16 \<longrightarrow> rng_key s = key @ replicate (16 - length key) 0) \<and>
        (16 \<le> length key \<longrightarrow> rng_key s = take 16 key)) \<and>
   (pad16 key = pad16 key' \<longrightarrow>
      DeterministicRNG_init key = DeterministicRNG_init key' \<and>
      (\<forall>k. rng_stream P key k = rng_stream P key' k))"
proof -
  have init: "DeterministicRNG_init k = Inr \<lparr>rng_key = pad16 k, counter = 0\<rparr>" for k
    by (auto simp: DeterministicRNG_init_def AES_new_def pad16_def Let_def)
  have "length (pad16 key) = 16"
    by (auto simp: pad16_def)
  moreover have "length key < 16 \<Longrightarrow> pad16 key = key @ replicate (16 - length key) 0"
    by (simp add: pad16_def)
  moreover have "16 \<le> length key \<Longrightarrow> pad16 key = take 16 key"
    by (simp add: pad16_def)
  ultimately show ?thesis
    by (simp add: init rng_stream_def)
qed

theorem DeterministicRNG_init_any_key_witness:
  "(\<exists>s. DeterministicRNG_init [1, 2, 3] = Inr s \<and> counter s = 0 \<and> length (rng_key s) = 16 \<and>
        (length [1, 2, 3 :: byte] < 16 \<longrightarrow>
           rng_key s = [1, 2, 3] @ replicate (16 - length [1, 2, 3 :: byte]) 0) \<and>
        (16 \<le> length [1, 2, 3 :: byte] \<longrightarrow> rng_key s = take 16 [1, 2, 3])) \<and>
   pad16 [1, 2, 3] = pad16 [1, 2, 3, 0] \<and>
   DeterministicRNG_init [1, 2, 3] = DeterministicRNG_init [1, 2, 3, 0] \<and>
   (\<forall>k. rng_stream demo_prims [1, 2, 3] k = rng_stream demo_prims [1, 2, 3, 0] k)"
proof -
  have p: "pad16 [1, 2, 3] = pad16 [1, 2, 3, 0]"
    by code_simp
  show ?thesis
    using DeterministicRNG_init_any_key [of "[1, 2, 3]" "[1, 2, 3, 0]" demo_prims] p
    by blast
qed

section \<open>Properties of the iPRF\<close>

lemma pack_Q_Inr: "0 \<le> v \<Longrightarrow> v < 2 ^ 64 \<Longrightarrow> pack_Q v = Inr (be64 v)"
  by (simp add: pack_Q_def)

lemma encode_node_Inr:
  assumes "0 \<le> low" "low < 2 ^ 64" "0 \<le> high" "high < 2 ^ 64" "0 \<le> n" "n < 2 ^ 64"
  shows "\<exists>node_id. encode_node P low high n = Inr node_id"
  using assms by (simp add: encode_node_def pack_QQQ_def pack_Q_def)

lemma encode_node_Inl:
  assumes "\<not> (0 \<le> low \<and> low < 2 ^ 64 \<and> 0 \<le> high \<and> high < 2 ^ 64 \<and> 0 \<le> n \<and> n < 2 ^ 64)"
  shows "encode_node P low high n = Inl StructError"
  using assms by (auto simp: encode_node_def pack_QQQ_def pack_Q_def)

lemma mask64_bounds: "0 \<le> (x::int) AND 0xFFFFFFFFFFFFFFFF" "(x::int) AND 0xFFFFFFFFFFFFFFFF < 2 ^ 64"
proof -
  have "(0xFFFFFFFFFFFFFFFF :: int) = mask 64"
    by (simp add: mask_eq_exp_minus_1)
  then have eq: "x AND 0xFFFFFFFFFFFFFFFF = take_bit 64 x"
    by (simp add: take_bit_eq_mask)
  show "0 \<le> (x::int) AND 0xFFFFFFFFFFFFFFFF"
    unfolding eq by simp
  show "(x::int) AND 0xFFFFFFFFFFFFFFFF < 2 ^ 64"
    unfolding eq by (rule take_bit_int_less_exp)
qed

lemma prf_eval_Inr: "\<exists>r. prf_eval P k x = Inr r"
  using mask64_bounds [of x]
  by (simp add: prf_eval_def pack_into_Q_def pack_Q_def Let_def)

lemma cdf_loop_done: "\<not> k < n \<Longrightarrow> cdf_loop P n p q u prob cum_prob k = n"
  by (subst cdf_loop.simps) simp

lemma cdf_loop_step:
  "k < n \<Longrightarrow> cdf_loop P n p q u prob cum_prob k =
     (let prob' = fl_div P (fl_mul P (fl_div P (fl_mul P prob (fl_int P (n - k)))
                      (fl_int P (k + 1))) p) q;
          cum_prob' = fl_add P cum_prob prob'
      in if fl_le P u cum_prob' then k + 1
         else cdf_loop P n p q u prob' cum_prob' (k + 1))"
  by (subst cdf_loop.simps) simp

lemma cdf_loop_bounds:
  "0 \<le> k \<Longrightarrow> k \<le> n \<Longrightarrow>
     0 \<le> cdf_loop P n p q u prob cum_prob k \<and> cdf_loop P n p q u prob cum_prob k \<le> n"
proof (induction P n p q u prob cum_prob k rule: cdf_loop.induct)
  case (1 P n p q u prob cum_prob k)
  show ?case
  proof (cases "k < n")
    case False
    with "1.prems" show ?thesis
      by (simp add: cdf_loop_done)
  next
    case True
    define prob' where "prob' = fl_div P (fl_mul P (fl_div P (fl_mul P prob (fl_int P (n - k)))
                      (fl_int P (k + 1))) p) q"
    define cum' where "cum' = fl_add P cum_prob prob'"
    show ?thesis
    proof (cases "fl_le P u cum'")
      case le: True
      with True "1.prems" show ?thesis
        by (simp add: cdf_loop_step prob'_def cum'_def Let_def)
    next
      case nle: False
      have "0 \<le> cdf_loop P n p q u prob' cum' (k + 1) \<and> cdf_loop P n p q u prob' cum' (k + 1) \<le> n"
        using "1.IH" [OF True prob'_def cum'_def nle] True "1.prems" by simp
      with True nle show ?thesis
        by (simp add: cdf_loop_step prob'_def cum'_def Let_def)
    qed
  qed
qed

lemma small_int_converts: "\<bar>n\<bar> < 2 ^ 64 \<Longrightarrow> \<not> float_of_int_overflows n"
proof -
  have "(2::int) ^ 64 \<le> 2 ^ 1024 - 2 ^ 970"
    by simp
  then show "\<bar>n\<bar> < 2 ^ 64 \<Longrightarrow> \<not> float_of_int_overflows n"
    unfolding float_of_int_overflows_def by linarith
qed

lemma binomial_inverse_cdf_bounds:
  assumes "0 \<le> n" and "\<not> float_of_int_overflows n"
  shows "\<exists>c. binomial_inverse_cdf P n p u = Inr c \<and> 0 \<le> c \<and> c \<le> n"
  using assms cdf_loop_bounds [of 0 n P]
  by (simp add: binomial_inverse_cdf_def normal_approx_binomial_def exact_cdf_path_def Let_def)

lemma sample_binomial_Inr:
  assumes "0 \<le> n" and "n < 2 ^ 64"
  shows "\<exists>c. sample_binomial P k node_id n p = Inr c \<and> 0 \<le> c \<and> c \<le> n"
proof -
  obtain r where "prf_eval P k node_id = Inr r"
    using prf_eval_Inr by blast
  moreover have "\<not> float_of_int_overflows n"
    using assms by (intro small_int_converts) simp
  ultimately show ?thesis
    using binomial_inverse_cdf_bounds [of n P p] assms(1)
    by (simp add: sample_binomial_def Let_def)
qed

lemma sample_binomial_range:
  "sample_binomial P k node_id n p = Inr c \<Longrightarrow> 0 \<le> n \<Longrightarrow> 0 \<le> c \<and> c \<le> n"
  using cdf_loop_bounds [of 0 n P]
  by (auto simp: sample_binomial_def binomial_inverse_cdf_def normal_approx_binomial_def
        exact_cdf_path_def Let_def split: sum.splits if_splits)

lemma trace_loop_leaf: "\<not> low < high \<Longrightarrow> trace_loop P k n low high c i = Inr low"
  by (subst trace_loop.simps) simp

lemma trace_loop_node:
  assumes "low < high"
    and "encode_node P low high n = Inr node_id"
    and "sample_binomial P k node_id c
           (fl_truediv P ((low + high) div 2 - low + 1) (high - low + 1)) = Inr l"
  shows "trace_loop P k n low high c i =
           (if i < l then trace_loop P k n low ((low + high) div 2) l i
            else trace_loop P k n ((low + high) div 2 + 1) high (c - l) (i - l))"
  using assms by (subst trace_loop.simps) (simp add: Let_def)

lemma trace_loop_node_Inl:
  assumes "low < high" and "encode_node P low high n = Inl e"
  shows "trace_loop P k n low high c i = Inl e"
  using assms by (subst trace_loop.simps) (simp add: Let_def)

lemma trace_loop_sample_Inl:
  assumes "low < high"
    and "encode_node P low high n = Inr node_id"
    and "sample_binomial P k node_id c
           (fl_truediv P ((low + high) div 2 - low + 1) (high - low + 1)) = Inl e"
  shows "trace_loop P k n low high c i = Inl e"
  using assms by (subst trace_loop.simps) (simp add: Let_def)

lemma trace_loop_range:
  "low \<le> high \<Longrightarrow> trace_loop P k n low high c i = Inr v \<Longrightarrow> low \<le> v \<and> v \<le> high"
proof (induction "nat (high - low)" arbitrary: low high c i rule: less_induct)
  case less
  show ?case
  proof (cases "low < high")
    case False
    with less.prems show ?thesis by (simp add: trace_loop_leaf)
  next
    case True
    let ?mid = "(low + high) div 2"
    have mid: "low \<le> ?mid" "?mid < high" using True by linarith+
    show ?thesis
    proof (cases "encode_node P low high n")
      case (Inl e)
      with True less.prems show ?thesis by (simp add: trace_loop_node_Inl)
    next
      case (Inr node_id)
      obtain l where l: "sample_binomial P k node_id c
           (fl_truediv P (?mid - low + 1) (high - low + 1)) = Inr l"
      proof (cases "sample_binomial P k node_id c
           (fl_truediv P (?mid - low + 1) (high - low + 1))")
        case (Inl e)
        with less.prems show ?thesis
          by (simp add: trace_loop_sample_Inl [OF True Inr Inl])
      next
        case (Inr l)
        then show ?thesis by (rule that)
      qed
      note step = trace_loop_node [OF True Inr l]
      show ?thesis
      proof (cases "i < l")
        case left: True
        then have "trace_loop P k n low ?mid l i = Inr v"
          using less.prems step by simp
        moreover have "nat (?mid - low) < nat (high - low)" using mid by linarith
        ultimately have "low \<le> v \<and> v \<le> ?mid"
          using less.hyps [of ?mid low l i] mid by simp
        with mid show ?thesis by linarith
      next
        case right: False
        then have "trace_loop P k n (?mid + 1) high (c - l) (i - l) = Inr v"
          using less.prems step by simp
        moreover have "nat (high - (?mid + 1)) < nat (high - low)" using mid by linarith
        ultimately have "?mid + 1 \<le> v \<and> v \<le> high"
          using less.hyps [of high "?mid + 1" "c - l" "i - l"] mid by simp
        with mid show ?thesis by linarith
      qed
    qed
  qed
qed

lemma trace_loop_Inr:
  assumes "0 \<le> n" "n < 2 ^ 64"
  shows "0 \<le> low \<Longrightarrow> low \<le> high \<Longrightarrow> high < 2 ^ 64 \<Longrightarrow> 0 \<le> c \<Longrightarrow> c < 2 ^ 64 \<Longrightarrow>
           \<exists>v. trace_loop P k n low high c i = Inr v"
proof (induction "nat (high - low)" arbitrary: low high c i rule: less_induct)
  case less
  show ?case
  proof (cases "low < high")
    case False
    then show ?thesis by (simp add: trace_loop_leaf)
  next
    case True
    let ?mid = "(low + high) div 2"
    have mid: "low \<le> ?mid" "?mid < high" using True by linarith+
    obtain node_id where enc: "encode_node P low high n = Inr node_id"
      using encode_node_Inr [of low high n P] assms less.prems by auto
    obtain l where l: "sample_binomial P k node_id c
           (fl_truediv P (?mid - low + 1) (high - low + 1)) = Inr l" and lb: "0 \<le> l" "l \<le> c"
      using sample_binomial_Inr [of c P k node_id "fl_truediv P (?mid - low + 1) (high - low + 1)"]
        less.prems
      by blast
    note step = trace_loop_node [OF True enc l]
    have m1: "nat (?mid - low) < nat (high - low)" using mid by linarith
    have m2: "nat (high - (?mid + 1)) < nat (high - low)" using mid by linarith
    have L: "\<exists>v. trace_loop P k n low ?mid l i = Inr v"
      using less.hyps [OF m1] less.prems mid lb by simp
    have R: "\<exists>v. trace_loop P k n (?mid + 1) high (c - l) (i - l) = Inr v"
      using less.hyps [OF m2] less.prems mid lb by simp
    show ?thesis
      using L R by (simp add: step)
  qed
qed

lemma enumerate_recursive_empty:
  "low > high \<or> st > e \<or> c = 0 \<Longrightarrow>
     enumerate_recursive P k t low high n c st e acc = Inr acc"
  by (subst enumerate_recursive.simps) simp

lemma py_range_list_Inr: "stop - start < 2 ^ 63 \<Longrightarrow> py_range_list start stop = Inr [start..stop - 1]"
  by (simp add: py_range_list_def)

lemma py_range_list_Inl: "2 ^ 63 \<le> stop - start \<Longrightarrow> py_range_list start stop = Inl OverflowError"
  by (simp add: py_range_list_def)

lemma enumerate_recursive_leaf:
  "\<not> (low > high \<or> st > e \<or> c = 0) \<Longrightarrow> low = high \<Longrightarrow> e - st + 1 < 2 ^ 63 \<Longrightarrow>
     enumerate_recursive P k t low high n c st e acc =
       (if low = t then Inr (acc @ [st..e]) else Inr acc)"
  by (subst enumerate_recursive.simps) (simp add: py_range_list_def)

lemma enumerate_recursive_node:
  assumes "\<not> (low > high \<or> st > e \<or> c = 0)" and "low \<noteq> high"
    and "encode_node P low high n = Inr node_id"
    and "sample_binomial P k node_id c
           (fl_truediv P ((low + high) div 2 - low + 1) (high - low + 1)) = Inr l"
  shows "enumerate_recursive P k t low high n c st e acc =
           (if t \<le> (low + high) div 2 then
              (if l > 0 \<and> st + l > st
               then enumerate_recursive P k t low ((low + high) div 2) n l st (st + l - 1) acc
               else Inr acc)
            else
              (if c - l > 0 \<and> st + l \<le> e
               then enumerate_recursive P k t ((low + high) div 2 + 1) high n (c - l) (st + l) e acc
               else Inr acc))"
  using assms by (subst enumerate_recursive.simps) (simp add: Let_def)

lemma filter_upto_none: "(\<And>x. i \<le> x \<Longrightarrow> x \<le> j \<Longrightarrow> \<not> Q x) \<Longrightarrow> filter Q [i..j] = []"
  by (simp add: filter_empty_conv)

lemma upto_split_at: "i \<le> j \<Longrightarrow> j \<le> k + 1 \<Longrightarrow> [i..k] = [i..j - 1] @ [j..k]"
proof (cases "j \<le> k")
  case True
  assume "i \<le> j"
  then show ?thesis using True by (rule upto_split1)
next
  case False
  assume "j \<le> k + 1"
  with False have "j = k + 1" by simp
  then show ?thesis by simp
qed

lemma enumerate_recursive_correct:
  assumes n: "0 \<le> n" "n < 2 ^ 64"
  shows "0 \<le> low \<Longrightarrow> low \<le> t \<Longrightarrow> t \<le> high \<Longrightarrow> high < 2 ^ 64 \<Longrightarrow> 0 \<le> c \<Longrightarrow>
         e = st + c - 1 \<Longrightarrow> c < 2 ^ 63 \<Longrightarrow>
         enumerate_recursive P k t low high n c st e acc =
           Inr (acc @ filter (\<lambda>x. trace_loop P k n low high c (x - st) = Inr t) [st..e])"
proof (induction "nat (high - low)" arbitrary: low high c st e rule: less_induct)
  case less
  show ?case
  proof (cases "c = 0")
    case True
    with less.prems show ?thesis
      by (simp add: enumerate_recursive_empty)
  next
    case False
    with less.prems have c: "0 < c" and nonempty: "\<not> (low > high \<or> st > e \<or> c = 0)"
      by auto
    show ?thesis
    proof (cases "low = high")
      case True
      with less.prems have "low = t" by simp
      moreover have "e - st + 1 < 2 ^ 63" using less.prems by simp
      ultimately show ?thesis
        using True nonempty by (simp add: enumerate_recursive_leaf trace_loop_leaf)
    next
      case ne: False
      with less.prems have lt: "low < high" by simp
      let ?mid = "(low + high) div 2"
      let ?p = "fl_truediv P (?mid - low + 1) (high - low + 1)"
      have mid: "low \<le> ?mid" "?mid < high" using lt by linarith+
      obtain node_id where enc: "encode_node P low high n = Inr node_id"
        using encode_node_Inr [of low high n P] n less.prems by auto
      have "c < 2 ^ 64" using less.prems by simp
      then obtain l where l: "sample_binomial P k node_id c ?p = Inr l" and lb: "0 \<le> l" "l \<le> c"
        using sample_binomial_Inr [of c P k node_id ?p] less.prems by blast
      note tstep = trace_loop_node [OF lt enc l]
      note estep = enumerate_recursive_node [OF nonempty ne enc l]
      have split: "[st..e] = [st..st + l - 1] @ [st + l..e]"
        using upto_split_at [of st "st + l" e] lb less.prems by simp
      have m1: "nat (?mid - low) < nat (high - low)" using mid by linarith
      have m2: "nat (high - (?mid + 1)) < nat (high - low)" using mid by linarith
      show ?thesis
      proof (cases "t \<le> ?mid")
        case left: True
        have right_none: "filter (\<lambda>x. trace_loop P k n low high c (x - st) = Inr t) [st + l..e] = []"
        proof (rule filter_upto_none)
          fix x assume x: "st + l \<le> x" "x \<le> e"
          then have "trace_loop P k n low high c (x - st) =
                     trace_loop P k n (?mid + 1) high (c - l) (x - st - l)"
            by (simp add: tstep)
          moreover have "trace_loop P k n (?mid + 1) high (c - l) (x - st - l) \<noteq> Inr t"
            using trace_loop_range [of "?mid + 1" high P k n "c - l" "x - st - l" t] mid left
            by auto
          ultimately show "\<not> trace_loop P k n low high c (x - st) = Inr t" by simp
        qed
        have left_eq: "filter (\<lambda>x. trace_loop P k n low high c (x - st) = Inr t) [st..st + l - 1] =
                       filter (\<lambda>x. trace_loop P k n low ?mid l (x - st) = Inr t) [st..st + l - 1]"
          by (rule filter_cong) (auto simp: tstep)
        show ?thesis
        proof (cases "0 < l")
          case True
          have "enumerate_recursive P k t low ?mid n l st (st + l - 1) acc =
                Inr (acc @ filter (\<lambda>x. trace_loop P k n low ?mid l (x - st) = Inr t) [st..st + l - 1])"
          proof (rule less.hyps [OF m1])
            show "0 \<le> low" "low \<le> t" "t \<le> ?mid" "0 \<le> l"
              using less.prems left lb by simp_all
            show "?mid < 2 ^ 64" using mid less.prems by linarith
            show "st + l - 1 = st + l - 1" ..
            show "l < 2 ^ 63" using lb less.prems by linarith
          qed
          with True left show ?thesis
            by (simp add: estep split right_none left_eq)
        next
          case False
          with lb have "l = 0" by simp
          with left show ?thesis
            using right_none by (simp add: estep)
        qed
      next
        case right: False
        have left_none: "filter (\<lambda>x. trace_loop P k n low high c (x - st) = Inr t) [st..st + l - 1] = []"
        proof (rule filter_upto_none)
          fix x assume x: "st \<le> x" "x \<le> st + l - 1"
          then have "trace_loop P k n low high c (x - st) = trace_loop P k n low ?mid l (x - st)"
            by (simp add: tstep)
          moreover have "trace_loop P k n low ?mid l (x - st) \<noteq> Inr t"
            using trace_loop_range [of low ?mid P k n l "x - st" t] mid right
            by auto
          ultimately show "\<not> trace_loop P k n low high c (x - st) = Inr t" by simp
        qed
        have right_eq: "filter (\<lambda>x. trace_loop P k n low high c (x - st) = Inr t) [st + l..e] =
                 filter (\<lambda>x. trace_loop P k n (?mid + 1) high (c - l) (x - (st + l)) = Inr t) [st + l..e]"
          by (rule filter_cong) (auto simp: tstep algebra_simps)
        show ?thesis
        proof (cases "0 < c - l")
          case True
          have "enumerate_recursive P k t (?mid + 1) high n (c - l) (st + l) e acc =
                Inr (acc @ filter (\<lambda>x. trace_loop P k n (?mid + 1) high (c - l) (x - (st + l)) = Inr t)
                             [st + l..e])"
          proof (rule less.hyps [OF m2])
            show "0 \<le> ?mid + 1" "?mid + 1 \<le> t" "t \<le> high" "high < 2 ^ 64" "0 \<le> c - l"
              using less.prems right lb mid by simp_all
            show "e = st + l + (c - l) - 1" using less.prems by simp
            show "c - l < 2 ^ 63" using lb less.prems by linarith
          qed
          moreover have "st + l \<le> e" using True less.prems by simp
          ultimately show ?thesis
            using True right by (simp add: estep split left_none right_eq)
        next
          case False
          with lb have "l = c" by simp
          with less.prems have "[st + l..e] = []" by simp
          with False right show ?thesis
            by (simp add: estep split left_none)
        qed
      qed
    qed
  qed
qed

lemma enumerate_recursive_node_Inl:
  assumes "\<not> (low > high \<or> st > e \<or> c = 0)" and "low \<noteq> high"
    and "encode_node P low high n = Inl err"
  shows "enumerate_recursive P k t low high n c st e acc = Inl err"
  using assms by (subst enumerate_recursive.simps) (simp add: Let_def)

lemma IPRF_init_Inr:
  assumes "IPRF_init P k n m = Inr s"
  shows "length k = 16" and "n \<noteq> 0" and "m \<noteq> 0"
    and "iprf_key s = k" and "iprf_domain s = n" and "range_size s = m"
  using assms
  by (auto simp: IPRF_init_def AES_new_def Let_def split: if_splits)

lemma trace_ball_Inr:
  assumes "0 < n" and "0 < m" and "m = 1 \<or> (n < 2 ^ 64 \<and> m \<le> 2 ^ 64)"
  shows "\<exists>v. trace_ball P k x n m = Inr v \<and> 0 \<le> v \<and> v < m"
proof (cases "m = 1")
  case True
  then show ?thesis by (simp add: trace_ball_def)
next
  case False
  with assms have b: "0 \<le> n" "n < 2 ^ 64" "(0::int) \<le> 0" "0 \<le> m - 1" "m - 1 < 2 ^ 64"
    by auto
  obtain v where v: "trace_loop P k n 0 (m - 1) n x = Inr v"
    using trace_loop_Inr [OF b b(1,2)] by blast
  with trace_loop_range [of 0 "m - 1" P k n n x v] b have "0 \<le> v \<and> v \<le> m - 1"
    by simp
  with v False show ?thesis by (simp add: trace_ball_def)
qed

lemma trace_ball_StructError:
  assumes "1 < m" and "\<not> (0 \<le> n \<and> n < 2 ^ 64 \<and> m \<le> 2 ^ 64)"
  shows "trace_ball P k x n m = Inl StructError"
proof -
  have "encode_node P 0 (m - 1) n = Inl StructError"
    using assms by (intro encode_node_Inl) auto
  then show ?thesis
    using assms by (simp add: trace_ball_def trace_loop_node_Inl)
qed

lemma strict_sorted_filter_upto: "sorted_wrt (<) (filter Q [i..j])"
  by (rule sorted_wrt_filter) simp

lemma sorted_filter_upto: "sort (filter Q [i..j]) = filter Q [i..j]"
  by (rule sorted_sort_id) (rule strict_sorted_imp_sorted [OF strict_sorted_filter_upto])

lemma enumerate_balls_in_bin_eq:
  assumes "0 < n" and "0 < m" and "n < 2 ^ 63" and "m \<le> 2 ^ 64"
    and "0 \<le> y" and "y < m"
  shows "enumerate_balls_in_bin P k y n m =
           Inr (filter (\<lambda>x. trace_ball P k x n m = Inr y) [0..n - 1])"
proof (cases "m = 1")
  case True
  with assms have "y = 0" by simp
  with True assms(3) show ?thesis
    by (simp add: enumerate_balls_in_bin_def trace_ball_def py_range_list_def)
next
  case False
  with assms have b: "0 \<le> n" "n < 2 ^ 64" "(0::int) \<le> 0" "0 \<le> y" "y \<le> m - 1"
      "m - 1 < 2 ^ 64" "n - 1 = 0 + n - 1" "n < 2 ^ 63"
    by auto
  have "enumerate_recursive P k y 0 (m - 1) n n 0 (n - 1) [] =
          Inr ([] @ filter (\<lambda>x. trace_loop P k n 0 (m - 1) n (x - 0) = Inr y) [0..n - 1])"
    by (rule enumerate_recursive_correct [OF b(1,2,3,4,5,6,1,7,8)])
  with False show ?thesis
    by (simp add: enumerate_balls_in_bin_def trace_ball_def sorted_filter_upto)
qed

lemma enumerate_balls_in_bin_OverflowError:
  assumes "m = 1" and "2 ^ 63 \<le> n"
  shows "enumerate_balls_in_bin P k y n m = Inl OverflowError"
  using assms by (simp add: enumerate_balls_in_bin_def py_range_list_def)

lemma enumerate_balls_in_bin_StructError:
  assumes "1 < m" and "0 < n" and "\<not> (n < 2 ^ 64 \<and> m \<le> 2 ^ 64)"
  shows "enumerate_balls_in_bin P k y n m = Inl StructError"
proof -
  have "encode_node P 0 (m - 1) n = Inl StructError"
    using assms by (intro encode_node_Inl) auto
  moreover have "\<not> (0 > m - 1 \<or> 0 > n - 1 \<or> n = 0)" "0 \<noteq> m - 1"
    using assms by auto
  ultimately have "enumerate_recursive P k y 0 (m - 1) n n 0 (n - 1) [] = Inl StructError"
    by (rule enumerate_recursive_node_Inl [rotated 2])
  with assms show ?thesis
    by (simp add: enumerate_balls_in_bin_def)
qed

lemma inverse_eq_filter:
  assumes "IPRF_init P k n m = Inr s"
    and "0 < n" and "0 < m" and "n < 2 ^ 63" and "m \<le> 2 ^ 64"
    and "0 \<le> y" and "y < m"
  shows "iprf_inverse P s y = Inr (filter (\<lambda>x. iprf_forward P s x = Inr y) [0..n - 1])"
proof -
  note f = IPRF_init_Inr [OF assms(1)]
  have "filter (\<lambda>x. trace_ball P k x n m = Inr y) [0..n - 1] =
        filter (\<lambda>x. iprf_forward P s x = Inr y) [0..n - 1]"
    by (rule filter_cong) (auto simp: iprf_forward_def f)
  then show ?thesis
    using enumerate_balls_in_bin_eq [OF assms(2-7), of P k] assms(7)
    by (simp add: iprf_inverse_def f)
qed

lemma demo_init_20_5:
  "IPRF_init demo_prims (replicate 16 7) 20 5 =
     Inr \<lparr>iprf_key = replicate 16 7, iprf_domain = 20, range_size = 5, tree_depth = 3\<rparr>"
  by (simp add: IPRF_init_def AES_new_def demo_prims_def) code_simp

lemma demo_init_wide_domain:
  "IPRF_init demo_prims (replicate 16 7) (2 ^ 64) 2 =
     Inr \<lparr>iprf_key = replicate 16 7, iprf_domain = 2 ^ 64, range_size = 2, tree_depth = 1\<rparr>"
  by (simp add: IPRF_init_def AES_new_def demo_prims_def) code_simp

lemma demo_init_one_bin:
  "IPRF_init demo_prims (replicate 16 7) (2 ^ 63) 1 =
     Inr \<lparr>iprf_key = replicate 16 7, iprf_domain = 2 ^ 63, range_size = 1, tree_depth = 0\<rparr>"
  by (simp add: IPRF_init_def AES_new_def)

text \<open>
  C1 (as amended). For an iPRF constructed with positive \<open>n\<close> and \<open>m\<close> such that
  \<open>n < 2^63\<close> and \<open>m \<le> 2^64\<close>, and for \<open>y\<close> in \<open>[0, m)\<close>, \<^verbatim>\<open>inverse(y)\<close> returns
  the list of exactly those \<open>x\<close> in \<open>[0, n)\<close> with \<^verbatim>\<open>forward(x) = y\<close>, in strictly
  increasing order.
\<close>

theorem inverse_is_preimage:
  assumes "IPRF_init P k n m = Inr s"
    and "0 < n" and "0 < m" and "n < 2 ^ 63" and "m \<le> 2 ^ 64"
    and "0 \<le> y" and "y < m"
  shows "\<exists>xs. iprf_inverse P s y = Inr xs \<and>
              set xs = {x. 0 \<le> x \<and> x < n \<and> iprf_forward P s x = Inr y} \<and>
              sorted_wrt (<) xs"
proof -
  let ?xs = "filter (\<lambda>x. iprf_forward P s x = Inr y) [0..n - 1]"
  have "iprf_inverse P s y = Inr ?xs"
    using assms by (rule inverse_eq_filter)
  moreover have "set ?xs = {x. 0 \<le> x \<and> x < n \<and> iprf_forward P s x = Inr y}"
    by auto
  moreover have "sorted_wrt (<) ?xs"
    by (rule strict_sorted_filter_upto)
  ultimately show ?thesis by blast
qed

theorem inverse_is_preimage_witness:
  "IPRF_init demo_prims (replicate 16 7) 20 5 =
     Inr \<lparr>iprf_key = replicate 16 7, iprf_domain = 20, range_size = 5, tree_depth = 3\<rparr> \<and>
   (0::int) < 20 \<and> (0::int) < 5 \<and> (20::int) < 2 ^ 63 \<and> (5::int) \<le> 2 ^ 64 \<and>
   (0::int) \<le> 2 \<and> (2::int) < 5 \<and>
   (\<exists>xs. iprf_inverse demo_prims
            \<lparr>iprf_key = replicate 16 7, iprf_domain = 20, range_size = 5, tree_depth = 3\<rparr> 2 = Inr xs \<and>
         set xs = {x. 0 \<le> x \<and> x < 20 \<and>
                      iprf_forward demo_prims
                        \<lparr>iprf_key = replicate 16 7, iprf_domain = 20, range_size = 5, tree_depth = 3\<rparr> x
                      = Inr 2} \<and>
         sorted_wrt (<) xs)"
  using inverse_is_preimage [OF demo_init_20_5, of 2] demo_init_20_5 by simp

text \<open>
  The claim as stated, for every positive \<open>n\<close>, fails at \<open>n = 2^64\<close>, \<open>m = 2\<close>,
  \<open>y = 0\<close>: the instance is constructed, and \<^verbatim>\<open>inverse(0)\<close> raises \<^verbatim>\<open>struct.error\<close>
  when the root node is encoded. It fails at \<open>n = 2^63\<close>, \<open>m = 1\<close>, \<open>y = 0\<close> as well:
  \<^verbatim>\<open>list(range(n))\<close> raises \<^verbatim>\<open>OverflowError\<close>. Neither failure depends on the primitives.
\<close>

theorem inverse_is_preimage_counterexample:
  "IPRF_init demo_prims (replicate 16 7) (2 ^ 64) 2 =
     Inr \<lparr>iprf_key = replicate 16 7, iprf_domain = 2 ^ 64, range_size = 2, tree_depth = 1\<rparr> \<and>
   iprf_inverse demo_prims
     \<lparr>iprf_key = replicate 16 7, iprf_domain = 2 ^ 64, range_size = 2, tree_depth = 1\<rparr> 0
     = Inl StructError \<and>
   IPRF_init demo_prims (replicate 16 7) (2 ^ 63) 1 =
     Inr \<lparr>iprf_key = replicate 16 7, iprf_domain = 2 ^ 63, range_size = 1, tree_depth = 0\<rparr> \<and>
   iprf_inverse demo_prims
     \<lparr>iprf_key = replicate 16 7, iprf_domain = 2 ^ 63, range_size = 1, tree_depth = 0\<rparr> 0
     = Inl OverflowError"
  using demo_init_wide_domain demo_init_one_bin
    enumerate_balls_in_bin_StructError [of 2 "2 ^ 64" demo_prims "replicate 16 7" 0]
    enumerate_balls_in_bin_OverflowError [of 1 "2 ^ 63" demo_prims "replicate 16 7" 0]
  by (simp add: iprf_inverse_def)

text \<open>
  C2 (as amended). For an iPRF constructed with positive \<open>n\<close> and \<open>m\<close> such that
  \<open>m = 1\<close>, or \<open>n < 2^64\<close> and \<open>m \<le> 2^64\<close>, and for \<open>x\<close> in \<open>[0, n)\<close>,
  \<^verbatim>\<open>forward(x)\<close> returns a value in \<open>[0, m)\<close>.
\<close>

theorem forward_in_range:
  assumes "IPRF_init P k n m = Inr s"
    and "0 < n" and "0 < m" and "m = 1 \<or> (n < 2 ^ 64 \<and> m \<le> 2 ^ 64)"
    and "0 \<le> x" and "x < n"
  shows "\<exists>y. iprf_forward P s x = Inr y \<and> 0 \<le> y \<and> y < m"
  using trace_ball_Inr [OF assms(2-4), of P k x] assms(6) IPRF_init_Inr [OF assms(1)]
  by (simp add: iprf_forward_def)

theorem forward_in_range_witness:
  "IPRF_init demo_prims (replicate 16 7) 20 5 =
     Inr \<lparr>iprf_key = replicate 16 7, iprf_domain = 20, range_size = 5, tree_depth = 3\<rparr> \<and>
   (0::int) < 20 \<and> (0::int) < 5 \<and> ((5::int) = 1 \<or> (20::int) < 2 ^ 64 \<and> (5::int) \<le> 2 ^ 64) \<and>
   (0::int) \<le> 13 \<and> (13::int) < 20 \<and>
   (\<exists>y. iprf_forward demo_prims
           \<lparr>iprf_key = replicate 16 7, iprf_domain = 20, range_size = 5, tree_depth = 3\<rparr> 13 = Inr y \<and>
        0 \<le> y \<and> y < 5)"
  using forward_in_range [OF demo_init_20_5, of 13] demo_init_20_5 by simp

text \<open>
  The claim as stated fails at \<open>n = 2^64\<close>, \<open>m = 2\<close>, \<open>x = 0\<close>: \<^verbatim>\<open>forward(0)\<close> raises
  \<^verbatim>\<open>struct.error\<close> instead of returning a value.
\<close>

theorem forward_in_range_counterexample:
  "IPRF_init demo_prims (replicate 16 7) (2 ^ 64) 2 =
     Inr \<lparr>iprf_key = replicate 16 7, iprf_domain = 2 ^ 64, range_size = 2, tree_depth = 1\<rparr> \<and>
   (0::int) \<le> 0 \<and> (0::int) < 2 ^ 64 \<and>
   iprf_forward demo_prims
     \<lparr>iprf_key = replicate 16 7, iprf_domain = 2 ^ 64, range_size = 2, tree_depth = 1\<rparr> 0
     = Inl StructError"
  using demo_init_wide_domain
    trace_ball_StructError [of 2 "2 ^ 64" demo_prims "replicate 16 7" 0]
  by (simp add: iprf_forward_def)

text \<open>
  C3. \<^verbatim>\<open>forward(x)\<close> returns 0 whenever \<open>x \<ge> n\<close>, and \<^verbatim>\<open>inverse(y)\<close> returns the empty
  list whenever \<open>y \<ge> m\<close>.
\<close>

theorem out_of_range_absorbed:
  "(iprf_domain s \<le> x \<longrightarrow> iprf_forward P s x = Inr 0) \<and>
   (range_size s \<le> y \<longrightarrow> iprf_inverse P s y = Inr [])"
  by (simp add: iprf_forward_def iprf_inverse_def)

theorem out_of_range_absorbed_witness:
  "iprf_domain \<lparr>iprf_key = replicate 16 7, iprf_domain = 20, range_size = 5, tree_depth = 3\<rparr> \<le> 1500 \<and>
   iprf_forward demo_prims \<lparr>iprf_key = replicate 16 7, iprf_domain = 20, range_size = 5, tree_depth = 3\<rparr> 1500 = Inr 0 \<and>
   range_size \<lparr>iprf_key = replicate 16 7, iprf_domain = 20, range_size = 5, tree_depth = 3\<rparr> \<le> 500 \<and>
   iprf_inverse demo_prims \<lparr>iprf_key = replicate 16 7, iprf_domain = 20, range_size = 5, tree_depth = 3\<rparr> 500 = Inr []"
  using out_of_range_absorbed [of "\<lparr>iprf_key = replicate 16 7, iprf_domain = 20, range_size = 5, tree_depth = 3\<rparr>" 1500 demo_prims 500]
  by simp

text \<open>
  C7 (as amended). Once an iPRF has been constructed with positive \<open>n\<close> and \<open>m\<close> such
  that \<open>n < 2^63\<close> and \<open>m \<le> 2^64\<close>, \<^verbatim>\<open>forward(x)\<close> and \<^verbatim>\<open>inverse(y)\<close> return a value
  for all nonnegative \<open>x\<close> and \<open>y\<close>.
\<close>

theorem forward_inverse_return:
  assumes "IPRF_init P k n m = Inr s"
    and "0 < n" and "0 < m" and "n < 2 ^ 63" and "m \<le> 2 ^ 64"
    and "0 \<le> x" and "0 \<le> y"
  shows "(\<exists>v. iprf_forward P s x = Inr v) \<and> (\<exists>xs. iprf_inverse P s y = Inr xs)"
proof
  have "m = 1 \<or> (n < 2 ^ 64 \<and> m \<le> 2 ^ 64)"
    using assms(4,5) by simp
  then show "\<exists>v. iprf_forward P s x = Inr v"
    using trace_ball_Inr [OF assms(2,3), of P "iprf_key s" x] IPRF_init_Inr [OF assms(1)]
    by (auto simp: iprf_forward_def)
  show "\<exists>xs. iprf_inverse P s y = Inr xs"
  proof (cases "y < m")
    case True
    then show ?thesis
      using inverse_eq_filter [OF assms(1-5) assms(7)] by simp
  next
    case False
    then show ?thesis
      using IPRF_init_Inr [OF assms(1)] by (simp add: iprf_inverse_def)
  qed
qed

theorem forward_inverse_return_witness:
  "IPRF_init demo_prims (replicate 16 7) 20 5 =
     Inr \<lparr>iprf_key = replicate 16 7, iprf_domain = 20, range_size = 5, tree_depth = 3\<rparr> \<and>
   (0::int) < 20 \<and> (0::int) < 5 \<and> (20::int) < 2 ^ 63 \<and> (5::int) \<le> 2 ^ 64 \<and>
   (0::int) \<le> 2 ^ 70 \<and> (0::int) \<le> 4 \<and>
   (\<exists>v. iprf_forward demo_prims \<lparr>iprf_key = replicate 16 7, iprf_domain = 20, range_size = 5, tree_depth = 3\<rparr> (2 ^ 70) = Inr v) \<and>
   (\<exists>xs. iprf_inverse demo_prims \<lparr>iprf_key = replicate 16 7, iprf_domain = 20, range_size = 5, tree_depth = 3\<rparr> 4 = Inr xs)"
  using forward_inverse_return [OF demo_init_20_5, of "2 ^ 70" 4] demo_init_20_5 by simp

text \<open>
  The claim as stated fails for the constructed instance with \<open>n = 2^63\<close> and \<open>m = 1\<close>:
  \<^verbatim>\<open>inverse(0)\<close> raises \<^verbatim>\<open>OverflowError\<close>, because \<^verbatim>\<open>list(range(n))\<close> is asked for a list
  of \<open>2^63\<close> elements. It fails for the constructed instance with \<open>n = 2^64\<close> and
  \<open>m = 2\<close>: \<^verbatim>\<open>forward(5)\<close> and \<^verbatim>\<open>inverse(1)\<close> raise \<^verbatim>\<open>struct.error\<close>, because \<open>n\<close> does not
  fit the 64-bit field of the node encoding. Neither failure depends on the primitives.
\<close>

theorem forward_inverse_return_counterexample:
  "IPRF_init demo_prims (replicate 16 7) (2 ^ 63) 1 =
     Inr \<lparr>iprf_key = replicate 16 7, iprf_domain = 2 ^ 63, range_size = 1, tree_depth = 0\<rparr> \<and>
   iprf_inverse demo_prims
     \<lparr>iprf_key = replicate 16 7, iprf_domain = 2 ^ 63, range_size = 1, tree_depth = 0\<rparr> 0
     = Inl OverflowError \<and>
   IPRF_init demo_prims (replicate 16 7) (2 ^ 64) 2 =
     Inr \<lparr>iprf_key = replicate 16 7, iprf_domain = 2 ^ 64, range_size = 2, tree_depth = 1\<rparr> \<and>
   iprf_forward demo_prims
     \<lparr>iprf_key = replicate 16 7, iprf_domain = 2 ^ 64, range_size = 2, tree_depth = 1\<rparr> 5
     = Inl StructError \<and>
   iprf_inverse demo_prims
     \<lparr>iprf_key = replicate 16 7, iprf_domain = 2 ^ 64, range_size = 2, tree_depth = 1\<rparr> 1
     = Inl StructError"
  using demo_init_one_bin demo_init_wide_domain
    enumerate_balls_in_bin_OverflowError [of 1 "2 ^ 63" demo_prims "replicate 16 7" 0]
    trace_ball_StructError [of 2 "2 ^ 64" demo_prims "replicate 16 7" 5]
    enumerate_balls_in_bin_StructError [of 2 "2 ^ 64" demo_prims "replicate 16 7" 1]
  by (simp add: iprf_forward_def iprf_inverse_def)

section \<open>Properties of the table-based permutation\<close>

lemma foldl_bytes_nonneg: "0 \<le> a \<Longrightarrow> 0 \<le> foldl (\<lambda>a b. a * 256 + uint (b :: byte)) a bs"
  by (induction bs arbitrary: a) simp_all

lemma unpack_Q_nonneg: "0 \<le> unpack_Q bs"
  by (simp add: unpack_Q_def foldl_bytes_nonneg)

lemma uint64_Inr_nonneg: "uint64 P s = Inr (r, s') \<Longrightarrow> 0 \<le> r"
  by (auto simp: uint64_def Let_def unpack_Q_nonneg split: sum.splits)

lemma uint64_Inl: "uint64 P s = Inl e \<Longrightarrow> e = StructError"
  by (auto simp: uint64_def pack_into_Q_def pack_Q_def Let_def split: sum.splits if_splits)

lemma uint64_n_loop_range:
  "0 < n \<Longrightarrow> uint64_n_loop P s n th = Inr (j, s') \<Longrightarrow> 0 \<le> j \<and> j < n"
proof (induction P s n th rule: uint64_n_loop.induct)
  case (1 P s n th)
  from "1.prems"(2) show ?case
    by (subst (asm) uint64_n_loop.simps)
       (use "1.IH" "1.prems"(1) in \<open>auto split: sum.splits if_splits\<close>)
qed

lemma uint64_n_loop_Inl:
  "uint64_n_loop P s n th = Inl e \<Longrightarrow> e = StructError"
proof (induction P s n th rule: uint64_n_loop.induct)
  case (1 P s n th)
  from "1.prems" show ?case
    by (subst (asm) uint64_n_loop.simps)
       (use "1.IH" in \<open>auto split: sum.splits if_splits dest: uint64_Inl\<close>)
qed

lemma uint64_n_range:
  assumes "2 \<le> n" and "uint64_n P s n = Inr (j, s')"
  shows "0 \<le> j \<and> j < n"
proof (cases "n AND (n - 1) = 0")
  case True
  with assms obtain r where "j = r AND (n - 1)"
    by (auto simp: uint64_n_def split: sum.splits if_splits)
  moreover have "0 \<le> r AND (n - 1)" "r AND (n - 1) \<le> n - 1"
    using assms(1) by (simp_all add: AND_upper2)
  ultimately show ?thesis by simp
next
  case False
  with assms show ?thesis
    using uint64_n_loop_range [of n P s _ j s']
    by (auto simp: uint64_n_def Let_def split: if_splits)
qed

lemma uint64_n_Inl: "uint64_n P s n = Inl e \<Longrightarrow> e = StructError"
  by (auto simp: uint64_n_def Let_def split: if_splits sum.splits
           dest: uint64_Inl uint64_n_loop_Inl)

lemma py_index_Inr: "0 \<le> i \<Longrightarrow> i < int (length xs) \<Longrightarrow> py_index xs i = Inr (nat i)"
  by (simp add: py_index_def)

lemma swap_items_Inr:
  assumes "0 \<le> i" "i < int (length perm)" "0 \<le> j" "j < int (length perm)"
  shows "swap_items perm i j = Inr (perm[nat i := perm ! nat j, nat j := perm ! nat i])"
  using assms by (simp add: swap_items_def py_index_Inr Let_def)

lemma fisher_yates_done: "\<not> 0 < i \<Longrightarrow> fisher_yates P s i perm = Inr perm"
  by (subst fisher_yates.simps) simp

lemma fisher_yates_step:
  "0 < i \<Longrightarrow> uint64_n P s (i + 1) = Inr (j, s') \<Longrightarrow> swap_items perm i j = Inr perm' \<Longrightarrow>
     fisher_yates P s i perm = fisher_yates P s' (i - 1) perm'"
  by (subst fisher_yates.simps) simp

lemma fisher_yates_fail:
  "0 < i \<Longrightarrow> uint64_n P s (i + 1) = Inl e \<Longrightarrow> fisher_yates P s i perm = Inl e"
  by (subst fisher_yates.simps) simp

lemma fisher_yates_cases:
  assumes "i < int (length perm)"
  obtains (finished) "\<not> 0 < i" "fisher_yates P s i perm = Inr perm"
  | (failed) "0 < i" "fisher_yates P s i perm = Inl StructError"
  | (step) j s' where "0 < i" "0 \<le> j" "j \<le> i"
      "fisher_yates P s i perm =
         fisher_yates P s' (i - 1) (perm[nat i := perm ! nat j, nat j := perm ! nat i])"
proof (cases "0 < i")
  case False
  then show ?thesis using finished fisher_yates_done by blast
next
  case True
  show ?thesis
  proof (cases "uint64_n P s (i + 1)")
    case (Inl e)
    with True show ?thesis
      using failed fisher_yates_fail uint64_n_Inl by metis
  next
    case (Inr p)
    obtain j s' where p: "p = (j, s')" by (cases p)
    with Inr True have j: "0 \<le> j" "j < i + 1"
      using uint64_n_range [of "i + 1" P s j s'] by auto
    with True assms have "swap_items perm i j =
        Inr (perm[nat i := perm ! nat j, nat j := perm ! nat i])"
      by (intro swap_items_Inr) auto
    with Inr p True have "fisher_yates P s i perm =
         fisher_yates P s' (i - 1) (perm[nat i := perm ! nat j, nat j := perm ! nat i])"
      by (simp add: fisher_yates_step)
    with True j show ?thesis using step by simp
  qed
qed

lemma fisher_yates_perm:
  "i < int (length perm) \<Longrightarrow> fisher_yates P s i perm = Inr perm' \<Longrightarrow>
     length perm' = length perm \<and> set perm' = set perm \<and> (distinct perm \<longrightarrow> distinct perm')"
proof (induction "nat i" arbitrary: i s perm rule: less_induct)
  case less
  from less.prems(1) show ?case
  proof (cases rule: fisher_yates_cases [where P = P and s = s])
    case finished
    with less.prems show ?thesis by simp
  next
    case failed
    with less.prems show ?thesis by simp
  next
    case (step j s')
    let ?perm = "perm[nat i := perm ! nat j, nat j := perm ! nat i]"
    have in_range: "nat i < length perm" "nat j < length perm"
      using step less.prems(1) by linarith+
    have "length perm' = length ?perm \<and> set perm' = set ?perm \<and>
          (distinct ?perm \<longrightarrow> distinct perm')"
    proof (rule less.hyps)
      show "nat (i - 1) < nat i" using step by linarith
      show "i - 1 < int (length ?perm)" using less.prems(1) by simp
      show "fisher_yates P s' (i - 1) ?perm = Inr perm'" using step less.prems(2) by simp
    qed
    with in_range show ?thesis
      by (simp add: set_swap distinct_swap)
  qed
qed

lemma fisher_yates_Inl:
  "i < int (length perm) \<Longrightarrow> fisher_yates P s i perm = Inl e \<Longrightarrow> e = StructError"
proof (induction "nat i" arbitrary: i s perm rule: less_induct)
  case less
  from less.prems(1) show ?case
  proof (cases rule: fisher_yates_cases [where P = P and s = s])
    case finished
    with less.prems show ?thesis by simp
  next
    case failed
    with less.prems show ?thesis by simp
  next
    case (step j s')
    let ?perm = "perm[nat i := perm ! nat j, nat j := perm ! nat i]"
    show ?thesis
    proof (rule less.hyps)
      show "nat (i - 1) < nat i" using step by linarith
      show "i - 1 < int (length ?perm)" using less.prems(1) by simp
      show "fisher_yates P s' (i - 1) ?perm = Inl e" using step less.prems(2) by simp
    qed
  qed
qed

lemma build_tables_spec:
  assumes "distinct perm"
  shows "\<forall>x\<in>set xs. 0 \<le> x \<and> x < int (length perm) \<Longrightarrow> distinct xs \<Longrightarrow>
         \<exists>f' g'. build_tables perm xs (f, g) = Inr (f', g') \<and>
           (\<forall>x. f' x = (if x \<in> set xs then Some (perm ! nat x) else f x)) \<and>
           (\<forall>x\<in>set xs. g' (perm ! nat x) = Some x) \<and>
           (\<forall>y. y \<notin> (\<lambda>x. perm ! nat x) ` set xs \<longrightarrow> g' y = g y)"
proof (induction xs arbitrary: f g)
  case Nil
  then show ?case by simp
next
  case (Cons x xs)
  let ?y = "perm ! nat x"
  have x: "0 \<le> x" "x < int (length perm)" "x \<notin> set xs"
    using Cons.prems by auto
  have fresh: "?y \<notin> (\<lambda>z. perm ! nat z) ` set xs"
  proof
    assume "?y \<in> (\<lambda>z. perm ! nat z) ` set xs"
    then obtain z where z: "z \<in> set xs" "perm ! nat z = perm ! nat x" by auto
    with Cons.prems have "0 \<le> z" "z < int (length perm)" by auto
    with z x assms have "nat z = nat x"
      by (simp add: nth_eq_iff_index_eq)
    with \<open>0 \<le> z\<close> x(1) have "z = x" by linarith
    with z(1) x(3) show False by simp
  qed
  have pre: "\<forall>z\<in>set xs. 0 \<le> z \<and> z < int (length perm)" "distinct xs"
    using Cons.prems by auto
  obtain f' g' where r: "build_tables perm xs (f(x \<mapsto> ?y), g(?y \<mapsto> x)) = Inr (f', g')"
      and f': "\<forall>z. f' z = (if z \<in> set xs then Some (perm ! nat z) else (f(x \<mapsto> ?y)) z)"
      and g': "\<forall>z\<in>set xs. g' (perm ! nat z) = Some z"
      and g'': "\<forall>y. y \<notin> (\<lambda>z. perm ! nat z) ` set xs \<longrightarrow> g' y = (g(?y \<mapsto> x)) y"
    using Cons.IH [OF pre, of "f(x \<mapsto> ?y)" "g(?y \<mapsto> x)"] by blast
  have "build_tables perm (x # xs) (f, g) = Inr (f', g')"
    using r x by (simp add: py_index_Inr)
  moreover have "\<forall>z. f' z = (if z \<in> set (x # xs) then Some (perm ! nat z) else f z)"
    using f' by auto
  moreover have "\<forall>z\<in>set (x # xs). g' (perm ! nat z) = Some z"
    using g' g'' fresh by auto
  moreover have "\<forall>y. y \<notin> (\<lambda>z. perm ! nat z) ` set (x # xs) \<longrightarrow> g' y = g y"
    using g'' by auto
  ultimately show ?case by blast
qed

lemma img_nth: "(\<lambda>i. perm ! i) ` {0..<length perm} = set perm"
  by (auto simp: set_conv_nth)

lemma dom_tab:
  assumes g': "\<forall>x\<in>{0..<n::int}. g' (perm ! nat x) = Some x"
      and g'': "\<forall>y. y \<notin> (\<lambda>x. perm ! nat x) ` {0..<n} \<longrightarrow> g' y = None"
  shows "dom g' = (\<lambda>x. perm ! nat x) ` {0..<n}"
proof (intro equalityI subsetI)
  fix y assume "y \<in> dom g'"
  with g'' show "y \<in> (\<lambda>x. perm ! nat x) ` {0..<n}"
    by (cases "y \<in> (\<lambda>x. perm ! nat x) ` {0..<n}") auto
next
  fix y assume "y \<in> (\<lambda>x. perm ! nat x) ` {0..<n}"
  then obtain x where "x \<in> {0..<n}" "y = perm ! nat x" by blast
  with g' show "y \<in> dom g'" by auto
qed

lemma verify_loop_True:
  "\<forall>x\<in>set xs. \<exists>y. forward_table t x = Some y \<and> inverse_table t y = Some x \<Longrightarrow>
     verify_loop t xs = Inr True"
  by (induction xs) auto

lemma generate_permutation_Inr:
  "generate_permutation P n k = Inr fg \<Longrightarrow>
     \<exists>rng perm. DeterministicRNG_init k = Inr rng \<and>
       fisher_yates P rng (n - 1) [0..n - 1] = Inr perm \<and>
       build_tables perm [0..n - 1] (Map.empty, Map.empty) = Inr fg"
  by (simp add: generate_permutation_def py_range_list_def split: sum.splits if_splits)

lemma TablePRP_init_Inr:
  "TablePRP_init P n k = Inr t \<Longrightarrow>
     n \<noteq> 0 \<and> length k = 16 \<and>
     (\<exists>f g. generate_permutation P n k = Inr (f, g) \<and>
        t = \<lparr>prp_domain = n, prp_key = k, forward_table = f, inverse_table = g\<rparr>)"
  by (simp add: TablePRP_init_def split: if_splits sum.splits prod.splits)

lemma TablePRP_init_tables:
  assumes "TablePRP_init P n k = Inr t" and "0 < n"
  shows "\<exists>perm. length perm = nat n \<and> distinct perm \<and> set perm = {0..<n} \<and>
           prp_domain t = n \<and>
           forward_table t = (\<lambda>x. if 0 \<le> x \<and> x < n then Some (perm ! nat x) else None) \<and>
           (\<forall>x\<in>{0..<n}. inverse_table t (perm ! nat x) = Some x) \<and>
           dom (inverse_table t) = {0..<n} \<and>
           (\<lambda>x. perm ! nat x) ` {0..<n} = {0..<n}"
proof -
  from TablePRP_init_Inr [OF assms(1)] obtain f g where
    gp: "generate_permutation P n k = Inr (f, g)"
    and t: "t = \<lparr>prp_domain = n, prp_key = k, forward_table = f, inverse_table = g\<rparr>"
    by blast
  from generate_permutation_Inr [OF gp] obtain rng perm where
    fy: "fisher_yates P rng (n - 1) [0..n - 1] = Inr perm"
    and bt: "build_tables perm [0..n - 1] (Map.empty, Map.empty) = Inr (f, g)"
    by blast
  have "n - 1 < int (length [0..n - 1])" using assms(2) by simp
  from fisher_yates_perm [OF this fy] assms(2)
  have perm: "length perm = nat n" "set perm = {0..<n}" "distinct perm"
    by (simp_all add: atLeastLessThan_def atLeastAtMost_def set_eq_iff)
  obtain f' g' where bt': "build_tables perm [0..n - 1] (Map.empty, Map.empty) = Inr (f', g')"
      and f': "\<forall>x. f' x = (if x \<in> set [0..n - 1] then Some (perm ! nat x) else None)"
      and g': "\<forall>x\<in>set [0..n - 1]. g' (perm ! nat x) = Some x"
      and g'': "\<forall>y. y \<notin> (\<lambda>x. perm ! nat x) ` set [0..n - 1] \<longrightarrow> g' y = None"
  proof -
    have "\<forall>x\<in>set [0..n - 1]. 0 \<le> x \<and> x < int (length perm)" "distinct [0..n - 1]"
      using perm(1) assms(2) by auto
    from build_tables_spec [OF perm(3) this, of Map.empty Map.empty] that
    show ?thesis by blast
  qed
  from bt bt' have fg: "f = f'" "g = g'" by simp_all
  have img: "(\<lambda>x. perm ! nat x) ` {0..<n} = {0..<n}"
  proof -
    have "(\<lambda>x. perm ! nat x) ` {0..<n} = (\<lambda>i. perm ! i) ` {0..<length perm}"
    proof (intro equalityI subsetI)
      fix y assume "y \<in> (\<lambda>x. perm ! nat x) ` {0..<n}"
      then obtain x where "0 \<le> x" "x < n" "y = perm ! nat x" by auto
      then show "y \<in> (\<lambda>i. perm ! i) ` {0..<length perm}"
        using perm(1) by (intro image_eqI [where x = "nat x"]) auto
    next
      fix y assume "y \<in> (\<lambda>i. perm ! i) ` {0..<length perm}"
      then obtain i where "i < length perm" "y = perm ! i" by auto
      then show "y \<in> (\<lambda>x. perm ! nat x) ` {0..<n}"
        using perm(1) by (intro image_eqI [where x = "int i"]) auto
    qed
    also have "\<dots> = set perm"
      by (rule img_nth)
    finally show ?thesis using perm(2) by simp
  qed
  have "forward_table t = (\<lambda>x. if 0 \<le> x \<and> x < n then Some (perm ! nat x) else None)"
    using f' by (auto simp: t fg)
  moreover have "\<forall>x\<in>{0..<n}. inverse_table t (perm ! nat x) = Some x"
    using g' by (auto simp: t fg)
  moreover have "dom (inverse_table t) = {0..<n}"
  proof -
    have s: "set [0..n - 1] = {0..<n}" by auto
    have "dom g' = (\<lambda>x. perm ! nat x) ` {0..<n}"
      using g' g'' unfolding s by (rule dom_tab)
    then show ?thesis by (simp add: t fg img)
  qed
  ultimately show ?thesis
    using perm img by (intro exI [where x = perm]) (simp add: t)
qed

lemma generate_permutation_too_long:
  "2 ^ 63 \<le> n \<Longrightarrow> generate_permutation P n k = Inl OverflowError"
  by (simp add: generate_permutation_def py_range_list_def)

lemma generate_permutation_cases:
  assumes "length k = 16" and "n < 2 ^ 63"
  shows "generate_permutation P n k = Inl StructError \<and>
           fisher_yates P \<lparr>rng_key = k, counter = 0\<rparr> (n - 1) [0..n - 1] = Inl StructError \<or>
         (\<exists>fg perm. generate_permutation P n k = Inr fg \<and>
            fisher_yates P \<lparr>rng_key = k, counter = 0\<rparr> (n - 1) [0..n - 1] = Inr perm)"
proof -
  have rng: "DeterministicRNG_init k = Inr \<lparr>rng_key = k, counter = 0\<rparr>"
    using assms(1) by (simp add: DeterministicRNG_init_def AES_new_def Let_def)
  have len: "n - 1 < int (length [0..n - 1])" by simp
  show ?thesis
  proof (cases "fisher_yates P \<lparr>rng_key = k, counter = 0\<rparr> (n - 1) [0..n - 1]")
    case (Inl e)
    with fisher_yates_Inl [OF len Inl] rng assms(2) show ?thesis
      by (simp add: generate_permutation_def py_range_list_def)
  next
    case (Inr perm)
    from fisher_yates_perm [OF len Inr]
    have perm: "length perm = length [0..n - 1]" "distinct perm" by simp_all
    then have "\<forall>x\<in>set [0..n - 1]. 0 \<le> x \<and> x < int (length perm)" by auto
    from build_tables_spec [OF perm(2) this, of Map.empty Map.empty]
    obtain f g where "build_tables perm [0..n - 1] (Map.empty, Map.empty) = Inr (f, g)"
      by auto
    with Inr rng assms(2) show ?thesis
      by (simp add: generate_permutation_def py_range_list_def)
  qed
qed

lemma threshold_bound:
  assumes "2 \<le> (b::int)"
  shows "2 ^ 64 - b \<le> (push_bit 64 1 - 1) - (push_bit 64 1 - 1) mod b"
proof -
  have "(push_bit 64 1 - 1 :: int) mod b < b"
    using assms by (intro pos_mod_bound) simp
  then show ?thesis by simp
qed

lemma uint64_n_loop_accept:
  assumes "uint64 P s = Inr (r, s')" and "r < th"
  shows "uint64_n_loop P s b th = Inr (r mod b, s')"
  using assms by (subst uint64_n_loop.simps) simp

lemma uint64_n_accept:
  assumes c: "0 \<le> counter s" "counter s < 2 ^ 64" and b: "2 \<le> b"
    and out: "uint64_output P (rng_key s) (counter s) < 2 ^ 64 - b"
  shows "\<exists>j. uint64_n P s b = Inr (j, s\<lparr>counter := counter s + 1\<rparr>)"
proof -
  let ?r = "uint64_output P (rng_key s) (counter s)"
  let ?s' = "s\<lparr>counter := counter s + 1\<rparr>"
  have u: "uint64 P s = Inr (?r, ?s')"
    using uint64_in_range [OF c, of P] by (simp add: uint64_output_def)
  show ?thesis
  proof (cases "b AND (b - 1) = 0")
    case True
    with b u show ?thesis by (simp add: uint64_n_def)
  next
    case False
    have "?r < (push_bit 64 1 - 1) - (push_bit 64 1 - 1) mod b"
      using threshold_bound [OF b] out by linarith
    from uint64_n_loop_accept [OF u this, of b] False b show ?thesis
      by (simp add: uint64_n_def Let_def del: push_bit_of_1)
  qed
qed

lemma fisher_yates_Inr:
  "i < int (length perm) \<Longrightarrow> 0 \<le> counter s \<Longrightarrow> counter s + i < 2 ^ 64 \<Longrightarrow> i < B \<Longrightarrow>
   (\<forall>c. counter s \<le> c \<and> c < counter s + i \<longrightarrow> uint64_output P (rng_key s) c < 2 ^ 64 - B) \<Longrightarrow>
     \<exists>perm'. fisher_yates P s i perm = Inr perm'"
proof (induction "nat i" arbitrary: i s perm rule: less_induct)
  case less
  show ?case
  proof (cases "0 < i")
    case False
    then show ?thesis by (simp add: fisher_yates_done)
  next
    case True
    have "uint64_output P (rng_key s) (counter s) < 2 ^ 64 - B"
      using less.prems(5) True by simp
    then have out: "uint64_output P (rng_key s) (counter s) < 2 ^ 64 - (i + 1)"
      using less.prems(4) by linarith
    have c: "0 \<le> counter s" "counter s < 2 ^ 64" "2 \<le> i + 1"
      using less.prems True by linarith+
    let ?s' = "s\<lparr>counter := counter s + 1\<rparr>"
    from uint64_n_accept [OF c out] obtain j where j: "uint64_n P s (i + 1) = Inr (j, ?s')"
      by blast
    have jb: "0 \<le> j" "j < i + 1"
      using uint64_n_range [OF c(3) j] by simp_all
    let ?perm = "perm[nat i := perm ! nat j, nat j := perm ! nat i]"
    have sw: "swap_items perm i j = Inr ?perm"
      using True jb less.prems(1) by (intro swap_items_Inr) linarith+
    have "\<exists>perm'. fisher_yates P ?s' (i - 1) ?perm = Inr perm'"
    proof (rule less.hyps)
      show "nat (i - 1) < nat i" using True by linarith
      show "i - 1 < int (length ?perm)" using less.prems(1) by simp
      show "0 \<le> counter ?s'" using less.prems(2) by simp
      show "counter ?s' + (i - 1) < 2 ^ 64" using less.prems(3) by simp
      show "i - 1 < B" using less.prems(4) by simp
      show "\<forall>c. counter ?s' \<le> c \<and> c < counter ?s' + (i - 1) \<longrightarrow>
                uint64_output P (rng_key ?s') c < 2 ^ 64 - B"
        using less.prems(5) by simp
    qed
    then show ?thesis
      using fisher_yates_step [OF True j sw] by simp
  qed
qed

lemma TablePRP_init_no_rejection:
  assumes "n \<noteq> 0" and "length k = 16" and "n < 2 ^ 63"
    and "\<forall>c. 0 \<le> c \<and> c < n - 1 \<longrightarrow> uint64_output P k c < 2 ^ 64 - n"
  shows "\<exists>t. TablePRP_init P n k = Inr t"
proof -
  have "\<exists>perm. fisher_yates P \<lparr>rng_key = k, counter = 0\<rparr> (n - 1) [0..n - 1] = Inr perm"
  proof (rule fisher_yates_Inr [where B = n])
    show "n - 1 < int (length [0..n - 1])" by simp
    show "0 \<le> counter \<lparr>rng_key = k, counter = 0\<rparr>" by simp
    show "counter \<lparr>rng_key = k, counter = 0\<rparr> + (n - 1) < 2 ^ 64"
      using assms(3) by simp
    show "n - 1 < n" by simp
    show "\<forall>c. counter \<lparr>rng_key = k, counter = 0\<rparr> \<le> c \<and>
               c < counter \<lparr>rng_key = k, counter = 0\<rparr> + (n - 1) \<longrightarrow>
               uint64_output P (rng_key \<lparr>rng_key = k, counter = 0\<rparr>) c < 2 ^ 64 - n"
      using assms(4) by simp
  qed
  with generate_permutation_cases [OF assms(2,3), of P] assms(1,2) show ?thesis
    by (auto simp: TablePRP_init_def split: sum.splits)
qed

lemma TablePRP_init_outcomes:
  "TablePRP_init P n k =
     (if n = 0 \<or> length k \<noteq> 16 then Inl ValueError
      else if 2 ^ 63 \<le> n then Inl OverflowError
      else case generate_permutation P n k of
             Inl e \<Rightarrow> Inl StructError
           | Inr (f, g) \<Rightarrow>
               Inr \<lparr>prp_domain = n, prp_key = k, forward_table = f, inverse_table = g\<rparr>)"
proof (cases "n = 0 \<or> length k \<noteq> 16")
  case True
  then show ?thesis by (auto simp: TablePRP_init_def)
next
  case False
  show ?thesis
  proof (cases "2 ^ 63 \<le> n")
    case True
    with False show ?thesis
      by (simp add: TablePRP_init_def generate_permutation_too_long)
  next
    case small: False
    with False generate_permutation_cases [of k n P] show ?thesis
      by (auto simp: TablePRP_init_def split: sum.splits)
  qed
qed

text \<open>
  C4. For a \<^verbatim>\<open>TablePRP\<close> constructed with positive domain \<open>n\<close> (and hence a 16-byte
  key), the forward table is defined exactly on \<open>[0, n)\<close> and maps it one-to-one onto
  \<open>[0, n)\<close>; \<open>inverse[forward[x]] = x\<close> for every \<open>x\<close> in \<open>[0, n)\<close>; both tables have
  exactly \<open>n\<close> entries. The methods \<^verbatim>\<open>forward\<close> and \<^verbatim>\<open>inverse\<close> round-trip accordingly
  and \<^verbatim>\<open>verify_bijection\<close> returns \<^verbatim>\<open>True\<close>.
\<close>

theorem TablePRP_bijection:
  assumes "TablePRP_init P n k = Inr t" and "0 < n"
  shows "dom (forward_table t) = {0..<n} \<and>
         bij_betw (\<lambda>x. the (forward_table t x)) {0..<n} {0..<n} \<and>
         (\<forall>x\<in>{0..<n}. \<exists>y. forward_table t x = Some y \<and> inverse_table t y = Some x) \<and>
         card (dom (forward_table t)) = nat n \<and>
         card (dom (inverse_table t)) = nat n \<and>
         (\<forall>x\<in>{0..<n}. \<exists>y. prp_forward t x = Inr y \<and> prp_inverse t y = Inr x) \<and>
         verify_bijection t = Inr True"
proof -
  from TablePRP_init_tables [OF assms] obtain perm where
    perm: "length perm = nat n" "distinct perm" "set perm = {0..<n}"
    and d: "prp_domain t = n"
    and f: "forward_table t = (\<lambda>x. if 0 \<le> x \<and> x < n then Some (perm ! nat x) else None)"
    and g: "\<forall>x\<in>{0..<n}. inverse_table t (perm ! nat x) = Some x"
    and dg: "dom (inverse_table t) = {0..<n}"
    and img: "(\<lambda>x. perm ! nat x) ` {0..<n} = {0..<n}"
    by blast
  have df: "dom (forward_table t) = {0..<n}"
    by (auto simp: f dom_def)
  have inj: "inj_on (\<lambda>x. perm ! nat x) {0..<n}"
  proof (rule inj_onI)
    fix x y assume xy: "x \<in> {0..<n}" "y \<in> {0..<n}" "perm ! nat x = perm ! nat y"
    then have "nat x = nat y"
      using perm by (simp add: nth_eq_iff_index_eq)
    with xy show "x = y" by (simp add: nat_eq_iff)
  qed
  have "bij_betw (\<lambda>x. perm ! nat x) {0..<n} {0..<n}"
    using inj img by (simp add: bij_betw_def)
  then have bij: "bij_betw (\<lambda>x. the (forward_table t x)) {0..<n} {0..<n}"
    by (rule bij_betw_cong [THEN iffD1, rotated]) (simp add: f)
  have rt: "\<forall>x\<in>{0..<n}. \<exists>y. forward_table t x = Some y \<and> inverse_table t y = Some x"
    using g by (simp add: f)
  have in_range: "0 \<le> perm ! nat x \<and> perm ! nat x < n" if "x \<in> {0..<n}" for x
    using img that by (metis atLeastLessThan_iff image_eqI)
  have meth: "\<forall>x\<in>{0..<n}. \<exists>y. prp_forward t x = Inr y \<and> prp_inverse t y = Inr x"
  proof
    fix x assume x: "x \<in> {0..<n}"
    then have "prp_forward t x = Inr (perm ! nat x)"
      by (simp add: prp_forward_def d f)
    moreover have "prp_inverse t (perm ! nat x) = Inr x"
      using in_range [OF x] g x by (simp add: prp_inverse_def d)
    ultimately show "\<exists>y. prp_forward t x = Inr y \<and> prp_inverse t y = Inr x" by blast
  qed
  have "verify_loop t [0..n - 1] = Inr True"
    by (rule verify_loop_True) (use rt in auto)
  then have vb: "verify_bijection t = Inr True"
    using assms(2) by (simp add: verify_bijection_def df dg d)
  show ?thesis
    using df bij rt dg meth vb by simp
qed

lemma demo_shuffle_5:
  "fisher_yates demo_prims \<lparr>rng_key = replicate 16 7, counter = 0\<rparr> 4 [0, 1, 2, 3, 4] =
     Inr [4, 3, 0, 2, 1]"
  by code_simp

lemma demo_table_5:
  "TablePRP_init demo_prims 5 (replicate 16 7) = Inr demo_table"
  by (simp add: TablePRP_init_def generate_permutation_def py_range_list_def
        DeterministicRNG_init_def AES_new_def demo_shuffle_5 py_index_def upto.simps
        demo_table_def)

theorem TablePRP_bijection_witness:
  "TablePRP_init demo_prims 5 (replicate 16 7) = Inr demo_table \<and>
   (0::int) < 5 \<and>
   dom (forward_table demo_table) = {0..<5} \<and>
   bij_betw (\<lambda>x. the (forward_table demo_table x)) {0..<5} {0..<5} \<and>
   (\<exists>y. forward_table demo_table 2 = Some y \<and> inverse_table demo_table y = Some 2) \<and>
   card (dom (forward_table demo_table)) = nat 5 \<and>
   card (dom (inverse_table demo_table)) = nat 5 \<and>
   (\<exists>y. prp_forward demo_table 2 = Inr y \<and> prp_inverse demo_table y = Inr 2) \<and>
   verify_bijection demo_table = Inr True"
proof -
  have pos: "(0::int) < 5" and mem: "(2::int) \<in> {0..<5}" by simp_all
  from TablePRP_bijection [OF demo_table_5 pos] demo_table_5 pos mem
  show ?thesis by blast
qed

lemma demo_outputs_5:
  "uint64_output demo_prims (replicate 16 7) 0 = 506381209866536711"
  "uint64_output demo_prims (replicate 16 7) 1 = 506381209866536710"
  "uint64_output demo_prims (replicate 16 7) 2 = 506381209866536709"
  "uint64_output demo_prims (replicate 16 7) 3 = 506381209866536708"
  by code_simp+

lemma demo_no_rejection_5:
  "\<forall>c. 0 \<le> c \<and> c < 5 - 1 \<longrightarrow> uint64_output demo_prims (replicate 16 7) c < 2 ^ 64 - 5"
proof (intro allI impI)
  fix c :: int assume "0 \<le> c \<and> c < 5 - 1"
  then have "c = 0 \<or> c = 1 \<or> c = 2 \<or> c = 3" by linarith
  then show "uint64_output demo_prims (replicate 16 7) c < 2 ^ 64 - 5"
    using demo_outputs_5 by auto
qed

text \<open>
  C5 (as amended). \<^verbatim>\<open>IPRF(key, n, m)\<close> raises \<^verbatim>\<open>ValueError\<close> if and only if the key length
  differs from 16, or \<open>n = 0\<close>, or \<open>m = 0\<close>, and is constructed for all other inputs.
  \<^verbatim>\<open>TablePRP(n, key)\<close> raises \<^verbatim>\<open>ValueError\<close> if and only if \<open>n = 0\<close> or the key length
  differs from 16. For the other inputs it raises \<^verbatim>\<open>OverflowError\<close> if and only if
  \<open>n \<ge> 2^63\<close>; below that it is constructed whenever none of the first \<open>n - 1\<close> outputs of
  the generator is among the \<open>n\<close> largest 64-bit values (then no draw of the shuffle is
  rejected), and its only other outcome is \<^verbatim>\<open>struct.error\<close>, from a generator whose
  counter has left the 64-bit range.
\<close>

theorem construction_errors:
  "(IPRF_init P k n m = Inl ValueError \<longleftrightarrow> length k \<noteq> 16 \<or> n = 0 \<or> m = 0) \<and>
   (length k = 16 \<and> n \<noteq> 0 \<and> m \<noteq> 0 \<longrightarrow> (\<exists>s. IPRF_init P k n m = Inr s)) \<and>
   (TablePRP_init P n k = Inl ValueError \<longleftrightarrow> n = 0 \<or> length k \<noteq> 16) \<and>
   (TablePRP_init P n k = Inl OverflowError \<longleftrightarrow> n \<noteq> 0 \<and> length k = 16 \<and> 2 ^ 63 \<le> n) \<and>
   (n \<noteq> 0 \<and> length k = 16 \<and> n < 2 ^ 63 \<and>
    (\<forall>c. 0 \<le> c \<and> c < n - 1 \<longrightarrow> uint64_output P k c < 2 ^ 64 - n) \<longrightarrow>
      (\<exists>t. TablePRP_init P n k = Inr t)) \<and>
   ((\<exists>t. TablePRP_init P n k = Inr t) \<or> TablePRP_init P n k = Inl ValueError \<or>
    TablePRP_init P n k = Inl OverflowError \<or> TablePRP_init P n k = Inl StructError)"
proof (intro conjI)
  show "IPRF_init P k n m = Inl ValueError \<longleftrightarrow> length k \<noteq> 16 \<or> n = 0 \<or> m = 0"
    by (auto simp: IPRF_init_def AES_new_def Let_def)
  show "length k = 16 \<and> n \<noteq> 0 \<and> m \<noteq> 0 \<longrightarrow> (\<exists>s. IPRF_init P k n m = Inr s)"
    by (simp add: IPRF_init_def AES_new_def Let_def)
  show "TablePRP_init P n k = Inl ValueError \<longleftrightarrow> n = 0 \<or> length k \<noteq> 16"
    by (subst TablePRP_init_outcomes) (auto split: sum.splits)
  show "TablePRP_init P n k = Inl OverflowError \<longleftrightarrow> n \<noteq> 0 \<and> length k = 16 \<and> 2 ^ 63 \<le> n"
    by (subst TablePRP_init_outcomes) (auto split: sum.splits)
  show "n \<noteq> 0 \<and> length k = 16 \<and> n < 2 ^ 63 \<and>
    (\<forall>c. 0 \<le> c \<and> c < n - 1 \<longrightarrow> uint64_output P k c < 2 ^ 64 - n) \<longrightarrow>
      (\<exists>t. TablePRP_init P n k = Inr t)"
    using TablePRP_init_no_rejection [of n k P] by blast
  show "(\<exists>t. TablePRP_init P n k = Inr t) \<or> TablePRP_init P n k = Inl ValueError \<or>
    TablePRP_init P n k = Inl OverflowError \<or> TablePRP_init P n k = Inl StructError"
    by (subst (1 2 3 4) TablePRP_init_outcomes) (auto split: sum.splits)
qed

theorem construction_errors_witness:
  "length (replicate 16 (7 :: byte)) = 16 \<and> (5::int) \<noteq> 0 \<and> (3::int) \<noteq> 0 \<and>
   (\<exists>s. IPRF_init demo_prims (replicate 16 7) 5 3 = Inr s) \<and>
   IPRF_init demo_prims (replicate 16 7) 5 3 \<noteq> Inl ValueError \<and>
   (5::int) < 2 ^ 63 \<and>
   uint64_output demo_prims (replicate 16 7) 0 < 2 ^ 64 - 5 \<and>
   uint64_output demo_prims (replicate 16 7) 1 < 2 ^ 64 - 5 \<and>
   uint64_output demo_prims (replicate 16 7) 2 < 2 ^ 64 - 5 \<and>
   uint64_output demo_prims (replicate 16 7) 3 < 2 ^ 64 - 5 \<and>
   (\<exists>t. TablePRP_init demo_prims 5 (replicate 16 7) = Inr t) \<and>
   TablePRP_init demo_prims 5 (replicate 16 7) \<noteq> Inl ValueError \<and>
   TablePRP_init demo_prims 5 (replicate 16 7) \<noteq> Inl OverflowError"
  using construction_errors [of demo_prims "replicate 16 7" 5 3] demo_no_rejection_5
    demo_outputs_5
  by simp

text \<open>
  The claim as stated, with success for every input that passes the validation, fails
  at \<open>n = 2^63\<close> with a 16-byte key: \<^verbatim>\<open>list(range(n))\<close> raises \<^verbatim>\<open>OverflowError\<close> before the
  shuffle starts, whatever the cipher.
\<close>

theorem construction_errors_counterexample:
  "(2 ^ 63 :: int) \<noteq> 0 \<and> length (replicate 16 (7 :: byte)) = 16 \<and>
   TablePRP_init demo_prims (2 ^ 63) (replicate 16 7) = Inl OverflowError"
  by (simp add: TablePRP_init_def generate_permutation_too_long)

section \<open>Expected preimage size\<close>

lemma rhe_div_le:
  assumes "0 < y" and "x \<le> c * y"
  shows "round_half_even_div x y \<le> c"
proof -
  have x: "x = (x div y) * y + x mod y" by simp
  have r: "0 \<le> x mod y" "x mod y < y" using assms(1) by simp_all
  show ?thesis
  proof (cases "x mod y = 0")
    case True
    then have "round_half_even_div x y = x div y"
      using assms(1) by (simp add: round_half_even_div_def Let_def)
    moreover have "x div y \<le> c"
      using assms by (metis x True add.right_neutral mult_le_cancel_right not_less order.asym)
    ultimately show ?thesis by simp
  next
    case False
    with r have "0 < x mod y" by simp
    with x have "(x div y) * y < x" by linarith
    with assms(2) have "(x div y) * y < c * y" by linarith
    with assms(1) have "x div y < c" by (simp add: mult_less_cancel_right)
    moreover have "round_half_even_div x y \<le> x div y + 1"
      by (simp add: round_half_even_div_def Let_def)
    ultimately show ?thesis by linarith
  qed
qed

lemma rhe_div_gt:
  assumes "0 < y" and "(2 * c + 1) * y < 2 * x"
  shows "c + 1 \<le> round_half_even_div x y"
proof -
  have x: "x = (x div y) * y + x mod y" by simp
  have r: "0 \<le> x mod y" "x mod y < y" using assms(1) by simp_all
  have lo: "x div y \<le> round_half_even_div x y"
    by (simp add: round_half_even_div_def Let_def)
  have "2 * (c * y) < 2 * x" using assms by (simp add: algebra_simps)
  then have "c * y < x" by simp
  moreover have "x < (x div y) * y + y" using x r by linarith
  ultimately have "c * y < (x div y + 1) * y" by (simp add: algebra_simps)
  then have cq: "c \<le> x div y" using assms(1) by (simp add: mult_less_cancel_right)
  show ?thesis
  proof (cases "c = x div y")
    case False
    with cq lo show ?thesis by linarith
  next
    case True
    with x have "x mod y = x - c * y" by (simp add: algebra_simps)
    with assms(2) have "y < 2 * (x mod y)" by (simp add: algebra_simps)
    then have "round_half_even_div x y = x div y + 1"
      by (simp add: round_half_even_div_def Let_def)
    with True show ?thesis by simp
  qed
qed

lemma binary_exponent_bounds:
  "bitlen a - bitlen b - 1 \<le> binary_exponent a b" "binary_exponent a b \<le> bitlen a - bitlen b"
  by (simp_all add: binary_exponent_def)

lemma ceiling_round_binary64:
  assumes a: "0 < a" "a < 2 ^ 53" and b: "0 < b" "b < 2 ^ 1022"
  shows "\<lceil>round_binary64 a b\<rceil> = \<lceil>rat_of_int a / rat_of_int b\<rceil>"
    and "round_binary64 a b < 2 ^ 1024"
proof -
  define e where "e = binary_exponent a b"
  define t where "t = nat (52 - e)"
  define K where "K = \<lceil>rat_of_int a / rat_of_int b\<rceil>"
  define M where "M = round_half_even_div (a * 2 ^ t) b"
  have la: "1 \<le> bitlen a" "bitlen a \<le> 53"
    using a bitlen_ge_iff_power [of 1 a] bitlen_le_iff_power [of a 53] by simp_all
  have lb: "1 \<le> bitlen b" "bitlen b \<le> 1022"
    using b bitlen_ge_iff_power [of 1 b] bitlen_le_iff_power [of b 1022] by simp_all
  have e: "- 1022 \<le> e" "e \<le> 52" "e \<le> bitlen a - bitlen b"
    using binary_exponent_bounds [of a b] la lb by (simp_all add: e_def)
  have b_small: "b < 2 ^ (t + 1)"
  proof -
    have "b < 2 ^ nat (bitlen b)"
      using bitlen_bounds [of b] b by simp
    also have "nat (bitlen b) \<le> t + 1"
      using e la lb by (simp add: t_def)
    then have "(2::int) ^ nat (bitlen b) \<le> 2 ^ (t + 1)"
      by (rule power_increasing) simp
    finally show ?thesis .
  qed
  have v: "round_binary64 a b = rat_of_int M / 2 ^ t"
  proof -
    have "max (binary_exponent a b) (- 1022) = e" using e by (simp add: e_def)
    moreover have "\<not> 0 \<le> e - 52 \<or> e = 52" using e by linarith 
    moreover have "nat (- (e - 52)) = t" by (simp add: t_def)
    ultimately show ?thesis
      by (auto simp: round_binary64_def Let_def M_def t_def)
  qed
  have K1: "rat_of_int a / rat_of_int b \<le> rat_of_int K"
    and K2: "rat_of_int K - 1 < rat_of_int a / rat_of_int b"
    unfolding K_def by linarith+
  have bpos: "0 < rat_of_int b" using b by simp
  from K1 bpos have "rat_of_int a \<le> rat_of_int K * rat_of_int b"
    by (simp add: pos_divide_le_eq)
  then have aK: "a \<le> K * b"
    by (metis of_int_le_iff of_int_mult)
  from K2 bpos have "(rat_of_int K - 1) * rat_of_int b < rat_of_int a"
    by (simp add: pos_less_divide_eq)
  then have "rat_of_int ((K - 1) * b) < rat_of_int a" by simp
  then have Ka: "(K - 1) * b < a"
    by (simp only: of_int_less_iff)
  have hi: "M \<le> K * 2 ^ t"
    unfolding M_def
  proof (rule rhe_div_le)
    show "0 < b" by fact
    show "a * 2 ^ t \<le> K * 2 ^ t * b"
      using aK by (simp add: mult.commute mult.left_commute)
  qed
  have lo: "(K - 1) * 2 ^ t + 1 \<le> M"
    unfolding M_def
  proof (rule rhe_div_gt)
    show "0 < b" by fact
    have "(K - 1) * b + 1 \<le> a" using Ka by simp
    then have "((K - 1) * b + 1) * 2 ^ (t + 1) \<le> a * 2 ^ (t + 1)"
      by (simp add: mult_right_mono)
    moreover have "(2 * ((K - 1) * 2 ^ t) + 1) * b < ((K - 1) * b + 1) * 2 ^ (t + 1)"
      using b_small by (simp add: algebra_simps)
    ultimately show "(2 * ((K - 1) * 2 ^ t) + 1) * b < 2 * (a * 2 ^ t)"
      by (simp add: algebra_simps)
  qed
  have p2: "(0::rat) < 2 ^ t" by simp
  have "rat_of_int M \<le> rat_of_int (K * 2 ^ t)" using hi by (simp only: of_int_le_iff)
  then have vK: "rat_of_int M / 2 ^ t \<le> rat_of_int K"
    using p2 by (simp add: pos_divide_le_eq)
  have "rat_of_int ((K - 1) * 2 ^ t) < rat_of_int M" using lo by (simp only: of_int_less_iff)
  then have Kv: "rat_of_int K - 1 < rat_of_int M / 2 ^ t"
    using p2 by (simp add: pos_less_divide_eq)
  show "\<lceil>round_binary64 a b\<rceil> = \<lceil>rat_of_int a / rat_of_int b\<rceil>"
    unfolding v K_def [symmetric] using vK Kv by (simp add: ceiling_eq_iff)
  have "K \<le> a"
  proof -
    have "rat_of_int a / rat_of_int b \<le> rat_of_int a"
      using a b by (simp add: pos_divide_le_eq mult_le_cancel_left1)
    then show ?thesis unfolding K_def by (simp add: ceiling_le_iff)
  qed
  then have "rat_of_int K < 2 ^ 53" using a
    by (metis of_int_less_iff le_less_trans of_int_numeral of_int_power)
  with vK have "rat_of_int M / 2 ^ t < 2 ^ 53" by linarith
  also have "(2::rat) ^ 53 < 2 ^ 1024" by simp
  finally show "round_binary64 a b < 2 ^ 1024" unfolding v .
qed

lemma demo_init_1000_7:
  "IPRF_init demo_prims (replicate 16 7) 1000 7 =
     Inr \<lparr>iprf_key = replicate 16 7, iprf_domain = 1000, range_size = 7, tree_depth = 3\<rparr>"
  by (simp add: IPRF_init_def AES_new_def demo_prims_def) code_simp

lemma demo_init_2_53:
  "IPRF_init demo_prims (replicate 16 7) (2 ^ 53 + 1) 1 =
     Inr \<lparr>iprf_key = replicate 16 7, iprf_domain = 2 ^ 53 + 1, range_size = 1, tree_depth = 0\<rparr>"
  by (simp add: IPRF_init_def AES_new_def demo_prims_def)

text \<open>
  C6 (as amended). For an iPRF constructed with \<open>0 < n < 2^53\<close> and \<open>0 < m < 2^1022\<close>,
  \<^verbatim>\<open>get_expected_preimage_size()\<close> returns exactly the integer ceiling of \<open>n / m\<close>.
\<close>

theorem expected_preimage_size_exact:
  assumes "IPRF_init P k n m = Inr s"
    and "0 < n" and "n < 2 ^ 53" and "0 < m" and "m < 2 ^ 1022"
  shows "get_expected_preimage_size s = Inr \<lceil>rat_of_int n / rat_of_int m\<rceil>"
proof -
  note f = IPRF_init_Inr [OF assms(1)]
  have "\<not> 2 ^ 1024 \<le> round_binary64 n m"
    using ceiling_round_binary64(2) [OF assms(2-5)] by simp
  then show ?thesis
    using assms(2,4) ceiling_round_binary64(1) [OF assms(2-5)]
    by (simp add: get_expected_preimage_size_def int_truediv_def f Let_def)
qed

theorem expected_preimage_size_exact_witness:
  "IPRF_init demo_prims (replicate 16 7) 1000 7 =
     Inr \<lparr>iprf_key = replicate 16 7, iprf_domain = 1000, range_size = 7, tree_depth = 3\<rparr> \<and>
   (0::int) < 1000 \<and> (1000::int) < 2 ^ 53 \<and> (0::int) < 7 \<and> (7::int) < 2 ^ 1022 \<and>
   get_expected_preimage_size \<lparr>iprf_key = replicate 16 7, iprf_domain = 1000, range_size = 7, tree_depth = 3\<rparr> = Inr 143"
proof -
  have "\<lceil>rat_of_int 1000 / rat_of_int 7\<rceil> = 143"
    by (simp add: ceiling_eq_iff)
  with expected_preimage_size_exact [OF demo_init_1000_7] demo_init_1000_7
  show ?thesis by simp
qed

text \<open>
  The claim as stated, for every constructed iPRF, fails at \<open>n = 2^53 + 1\<close>, \<open>m = 1\<close>:
  the quotient is rounded to the double \<open>2^53\<close>, and the method returns
  \<open>9007199254740992\<close>, while the integer ceiling of \<open>n / m\<close> is \<open>9007199254740993\<close>.
\<close>

theorem expected_preimage_size_counterexample:
  "IPRF_init demo_prims (replicate 16 7) (2 ^ 53 + 1) 1 =
     Inr \<lparr>iprf_key = replicate 16 7, iprf_domain = 2 ^ 53 + 1, range_size = 1, tree_depth = 0\<rparr> \<and>
   get_expected_preimage_size \<lparr>iprf_key = replicate 16 7, iprf_domain = 2 ^ 53 + 1, range_size = 1, tree_depth = 0\<rparr> = Inr 9007199254740992 \<and>
   \<lceil>rat_of_int (2 ^ 53 + 1) / rat_of_int 1\<rceil> = 9007199254740993"
proof -
  have "get_expected_preimage_size \<lparr>iprf_key = replicate 16 7, iprf_domain = 2 ^ 53 + 1, range_size = 1, tree_depth = 0\<rparr> =
          Inr 9007199254740992"
    by code_simp
  with demo_init_2_53 show ?thesis by simp
qed

section \<open>The binomial sampler\<close>

subsection \<open>Rounding of representable numbers and of ties\<close>

lemma rhe_div_exact: "0 < b \<Longrightarrow> round_half_even_div (N * b) b = N"
  by (simp add: round_half_even_div_def Let_def)

lemma rhe_div_scale: "0 < g \<Longrightarrow> round_half_even_div (x * g) (y * g) = round_half_even_div x y"
  by (simp add: round_half_even_div_def Let_def)

lemma rhe_div_tie: "round_half_even_div (2 * k + 1) 2 = 2 * ((k + 1) div 2)"
  by (auto simp: round_half_even_div_def Let_def elim!: evenE oddE)

lemma rhe_div_nonneg: "0 \<le> a \<Longrightarrow> 0 < b \<Longrightarrow> 0 \<le> round_half_even_div a b"
  by (simp add: round_half_even_div_def Let_def pos_imp_zdiv_nonneg_iff)

lemma bitlen_powi:
  assumes "0 < a"
  shows "(2::rat) powi (bitlen a - 1) \<le> of_int a" and "of_int a < (2::rat) powi (bitlen a)"
proof -
  have l: "1 \<le> bitlen a"
    using assms bitlen_ge_iff_power [of 1 a] by simp
  from bitlen_bounds [OF assms]
  have "2 ^ nat (bitlen a - 1) \<le> a" and "a < 2 ^ nat (bitlen a)" by simp_all
  then have "(2::rat) ^ nat (bitlen a - 1) \<le> of_int a" and "of_int a < (2::rat) ^ nat (bitlen a)"
    by simp_all
  with l show "(2::rat) powi (bitlen a - 1) \<le> of_int a" and "of_int a < (2::rat) powi (bitlen a)"
    by (simp_all add: power_int_def)
qed

lemma binary_exponent_le:
  assumes "0 < a" and "0 < b"
  shows "(2::rat) powi (binary_exponent a b) \<le> of_int a / of_int b"
proof (cases "a * 2 ^ nat (bitlen b) < b * 2 ^ nat (bitlen a)")
  case True
  then have e: "binary_exponent a b = (bitlen a - 1) - bitlen b"
    by (simp add: binary_exponent_def)
  have "(2::rat) powi (binary_exponent a b) = 2 powi (bitlen a - 1) / 2 powi (bitlen b)"
    unfolding e by (rule power_int_diff) simp
  also have "\<dots> \<le> of_int a / 2 powi (bitlen b)"
    using bitlen_powi(1) [OF assms(1)] by (simp add: divide_right_mono)
  also have "\<dots> \<le> of_int a / of_int b"
    using bitlen_powi(2) [OF assms(2)] assms by (intro divide_left_mono) simp_all
  finally show ?thesis .
next
  case False
  then have e: "binary_exponent a b = bitlen a - bitlen b"
    by (simp add: binary_exponent_def)
  have nn: "0 \<le> bitlen a" "0 \<le> bitlen b" by (rule bitlen_nonneg)+
  from False have "b * 2 ^ nat (bitlen a) \<le> a * 2 ^ nat (bitlen b)" by simp
  then have "rat_of_int (b * 2 ^ nat (bitlen a)) \<le> rat_of_int (a * 2 ^ nat (bitlen b))"
    by (simp only: of_int_le_iff)
  then have "of_int b * (2::rat) powi (bitlen a) \<le> of_int a * 2 powi (bitlen b)"
    using nn by (simp add: power_int_def)
  then have "(2::rat) powi (bitlen a) / 2 powi (bitlen b) \<le> of_int a / of_int b"
    using assms by (simp add: field_simps)
  moreover have "(2::rat) powi (binary_exponent a b) = 2 powi (bitlen a) / 2 powi (bitlen b)"
    unfolding e by (rule power_int_diff) simp
  ultimately show ?thesis by simp
qed

lemma binary_exponent_upper:
  assumes "0 < a" and "0 < b" and "a * 2 ^ t < 2 ^ 53 * b"
  shows "binary_exponent a b \<le> 52 - int t"
proof (rule ccontr)
  assume "\<not> binary_exponent a b \<le> 52 - int t"
  then have "53 - int t \<le> binary_exponent a b" by simp
  then have "(2::rat) powi (53 - int t) \<le> 2 powi (binary_exponent a b)"
    by (rule power_int_increasing) simp
  also have "\<dots> \<le> of_int a / of_int b"
    using assms(1,2) by (rule binary_exponent_le)
  finally have "(2::rat) powi 53 / 2 powi (int t) \<le> of_int a / of_int b"
    by (simp add: power_int_diff)
  then have "(2::rat) ^ 53 * of_int b \<le> of_int a * 2 ^ t"
    using assms(2) by (simp add: field_simps)
  then have "rat_of_int (2 ^ 53 * b) \<le> rat_of_int (a * 2 ^ t)"
    by simp
  then have "2 ^ 53 * b \<le> a * 2 ^ t"
    by (simp only: of_int_le_iff)
  with assms(3) show False by simp
qed

lemma round_binary64_exact:
  assumes "0 < a" and "0 < b" and "0 < M" and "M < 2 ^ 53" and "t \<le> 1074"
    and eq: "a * 2 ^ t = M * b"
  shows "round_binary64 a b = of_int M / 2 ^ t"
proof -
  define s where "s = max (binary_exponent a b) (- 1022) - 52"
  have "a * 2 ^ t < 2 ^ 53 * b"
    using assms by (simp add: mult.commute)
  from binary_exponent_upper [OF assms(1,2) this] assms(5)
  have s: "s \<le> - int t" by (simp add: s_def)
  define d where "d = nat (- s) - t"
  have ns: "nat (- s) = t + d" using s by (simp add: d_def)
  have "a * 2 ^ nat (- s) = (M * 2 ^ d) * b"
    using eq by (simp add: ns power_add algebra_simps)
  then have r: "round_half_even_div (a * 2 ^ nat (- s)) b = M * 2 ^ d"
    using rhe_div_exact [OF assms(2), of "M * 2 ^ d"] by simp
  have v: "rat_of_int (M * 2 ^ d) / 2 ^ nat (- s) = of_int M / 2 ^ t"
    by (simp add: ns power_add)
  have rb: "round_binary64 a b =
      (if 0 \<le> s then of_int (round_half_even_div a (b * 2 ^ nat s) * 2 ^ nat s)
       else of_int (round_half_even_div (a * 2 ^ nat (- s)) b) / 2 ^ nat (- s))"
    unfolding s_def by (simp add: round_binary64_def Let_def)
  show ?thesis
  proof (cases "0 \<le> s")
    case True
    with s have "s = 0" "t = 0" by simp_all
    with r v show ?thesis
      unfolding rb by simp
  next
    case False
    with r v show ?thesis
      unfolding rb by simp
  qed
qed

lemma binary64_exact:
  assumes "0 < M" and "M < 2 ^ 53" and "t \<le> 1074"
  shows "binary64 (of_int M / 2 ^ t) = of_int M / 2 ^ t"
proof -
  define x :: rat where "x = of_int M / 2 ^ t"
  obtain a b where q: "quotient_of x = (a, b)" by (cases "quotient_of x")
  have b: "0 < b" using q by (rule quotient_of_denom_pos)
  have xab: "x = of_int a / of_int b" using q by (rule quotient_of_div)
  have xpos: "0 < x" using assms(1) by (simp add: x_def)
  with xab b have a: "0 < a" by (simp add: zero_less_divide_iff)
  have "rat_of_int a * 2 ^ t = of_int M * of_int b"
    using xab b unfolding x_def by (simp add: field_simps)
  then have "rat_of_int (a * 2 ^ t) = rat_of_int (M * b)" by simp
  then have eq: "a * 2 ^ t = M * b" by (simp only: of_int_eq_iff)
  have "round_binary64 a b = of_int M / 2 ^ t"
    using a b assms eq by (rule round_binary64_exact)
  with q a xpos show ?thesis
    unfolding x_def [symmetric] by (simp add: binary64_def x_def)
qed

lemma round_binary64_tie:
  assumes "2 ^ 52 \<le> k" and "k < 2 ^ 53" and "j \<le> 1074"
  shows "round_binary64 (2 * k + 1) (2 ^ (j + 1)) = of_int (2 * ((k + 1) div 2)) / 2 ^ j"
proof -
  have la: "bitlen (2 * k + 1) = 54"
  proof (rule antisym)
    show "bitlen (2 * k + 1) \<le> 54"
      using assms(2) bitlen_le_iff_power [of "2 * k + 1" 54] by simp
    show "54 \<le> bitlen (2 * k + 1)"
      using assms(1) bitlen_ge_iff_power [of 54 "2 * k + 1"] by simp
  qed
  have b1: "bitlen 1 = 1"
    by (subst compute_bitlen) simp
  have "bitlen (1 * 2 ^ (j + 1)) = bitlen 1 + int (j + 1)"
    by (rule bitlen_pow2) simp
  then have lb: "bitlen (2 ^ (j + 1)) = int j + 2"
    unfolding b1 by (simp del: power_Suc)
  have "(2::int) ^ (j + 1) * 2 ^ 54 = 2 ^ (j + 2) * 2 ^ 53"
    by simp
  also have "\<dots> \<le> 2 ^ (j + 2) * (2 * k + 1)"
    using assms(1) by (intro mult_left_mono) simp_all
  finally have "\<not> (2 * k + 1) * 2 ^ (j + 2) < 2 ^ (j + 1) * 2 ^ 54"
    by (simp add: mult.commute)
  moreover have "nat (int j + 2) = j + 2" by simp
  ultimately have e: "binary_exponent (2 * k + 1) (2 ^ (j + 1)) = 52 - int j"
    unfolding binary_exponent_def la lb by simp
  have m: "max (52 - int j) (- 1022) - 52 = - int j"
    using assms(3) by simp
  have rb: "round_binary64 (2 * k + 1) (2 ^ (j + 1)) =
      (if j = 0 then of_int (round_half_even_div (2 * k + 1) 2)
       else of_int (round_half_even_div ((2 * k + 1) * 2 ^ j) (2 * 2 ^ j)) / 2 ^ j)"
    unfolding round_binary64_def e m Let_def by simp
  show ?thesis
    unfolding rb using rhe_div_scale [of "2 ^ j" "2 * k + 1" 2]
    by (simp add: rhe_div_tie)
qed

lemma binary64_tie:
  assumes "2 ^ 52 \<le> k" and "k < 2 ^ 53" and "j \<le> 1074"
  shows "binary64 (of_int (2 * k + 1) / 2 ^ (j + 1)) = of_int (2 * ((k + 1) div 2)) / 2 ^ j"
proof -
  have "rat_of_int (2 * k + 1) / 2 ^ (j + 1) = Fract (2 * k + 1) (2 ^ (j + 1))"
    by (simp add: Fract_of_int_quotient)
  moreover have "coprime (2 * k + 1) ((2::int) ^ (j + 1))"
    by (simp add: coprime_power_right_iff)
  ultimately have q: "quotient_of (rat_of_int (2 * k + 1) / 2 ^ (j + 1)) = (2 * k + 1, 2 ^ (j + 1))"
    by (simp only: quotient_of_Fract) (simp add: Rat.normalize_stable)
  have pos: "0 < 2 * k + 1" using assms(1) by simp
  then have nz: "rat_of_int (2 * k + 1) / 2 ^ (j + 1) \<noteq> 0"
    by simp
  show ?thesis
    unfolding binary64_def q using nz pos round_binary64_tie [OF assms]
    by (simp del: power_Suc of_int_add of_int_mult)
qed

lemma binary64_int: "0 \<le> k \<Longrightarrow> k < 2 ^ 53 \<Longrightarrow> binary64 (of_int k) = of_int k"
  using binary64_exact [of k 0] by (cases "k = 0") (simp_all add: binary64_def)

lemma binary64_consts:
  "binary64 (1 / 2) = 1 / 2" "binary64 1 = 1" "binary64 (1 / 2 ^ 53) = 1 / 2 ^ 53"
  using binary64_exact [of 1 1] binary64_exact [of 1 0] binary64_exact [of 1 53]
  by simp_all

lemma binary64_2_53: "binary64 (2 ^ 53) = 2 ^ 53"
  by code_simp

lemma binary64_prims_consts:
  "fl_lit (binary64_prims c h pw lg) 5 (- 1) = 1 / 2"
  "fl_lit (binary64_prims c h pw lg) 1 0 = 1"
  "fl_lit (binary64_prims c h pw lg) 0 0 = 0"
  "fl_int (binary64_prims c h pw lg) 0 = 0"
  "fl_int (binary64_prims c h pw lg) 1 = 1"
  "fl_int (binary64_prims c h pw lg) (push_bit 53 1) = 2 ^ 53"
  using binary64_consts binary64_2_53
  by (simp_all add: binary64_prims_def binary64_def)

lemma uniform_small:
  assumes "0 \<le> k" and "k < 2 ^ 52"
  shows "binary64 (binary64 (binary64 (of_int k) + 1 / 2) * (1 / 2 ^ 53)) = of_int (2 * k + 1) / 2 ^ 54"
    and "binary64 ((of_int k + 1 / 2) / 2 ^ 53) = of_int (2 * k + 1) / 2 ^ 54"
proof -
  have M: "0 < 2 * k + 1" "2 * k + 1 < 2 ^ 53" using assms by simp_all
  have k: "binary64 (of_int k) = of_int k"
    using assms by (intro binary64_int) simp_all
  have h: "rat_of_int k + 1 / 2 = of_int (2 * k + 1) / 2 ^ 1"
    by (simp add: field_simps)
  have a: "binary64 (rat_of_int k + 1 / 2) = of_int (2 * k + 1) / 2 ^ 1"
    unfolding h using M by (intro binary64_exact) simp_all
  have m: "rat_of_int (2 * k + 1) / 2 ^ 1 * (1 / 2 ^ 53) = of_int (2 * k + 1) / 2 ^ 54"
    by simp
  have e: "binary64 (rat_of_int (2 * k + 1) / 2 ^ 54) = of_int (2 * k + 1) / 2 ^ 54"
    using M by (intro binary64_exact) simp_all
  show "binary64 (binary64 (binary64 (of_int k) + 1 / 2) * (1 / 2 ^ 53)) = of_int (2 * k + 1) / 2 ^ 54"
    unfolding k a m e ..
  have eq2: "(rat_of_int k + 1 / 2) / 2 ^ 53 = of_int (2 * k + 1) / 2 ^ 54"
    unfolding h by simp
  show "binary64 ((of_int k + 1 / 2) / 2 ^ 53) = of_int (2 * k + 1) / 2 ^ 54"
    by (subst eq2) (rule e)
qed

lemma uniform_large:
  assumes "2 ^ 52 \<le> k" and "k < 2 ^ 53"
  shows "binary64 (binary64 (binary64 (of_int k) + 1 / 2) * (1 / 2 ^ 53)) =
           of_int (2 * ((k + 1) div 2)) / 2 ^ 53"
    and "binary64 ((of_int k + 1 / 2) / 2 ^ 53) = of_int (2 * ((k + 1) div 2)) / 2 ^ 53"
proof -
  define K where "K = (k + 1) div 2"
  have K: "0 < K" "K < 2 ^ 53" using assms by (simp_all add: K_def)
  have k: "binary64 (of_int k) = of_int k"
    using assms by (intro binary64_int) simp_all
  have h: "rat_of_int k + 1 / 2 = of_int (2 * k + 1) / 2 ^ (0 + 1)"
    by (simp add: field_simps)
  have a: "binary64 (rat_of_int k + 1 / 2) = of_int (2 * K) / 2 ^ 0"
    unfolding h K_def using assms by (intro binary64_tie) simp_all
  have m: "rat_of_int (2 * K) / 2 ^ 0 * (1 / 2 ^ 53) = of_int K / 2 ^ 52"
    by simp
  have e: "binary64 (rat_of_int K / 2 ^ 52) = of_int K / 2 ^ 52"
    using K by (intro binary64_exact) simp_all
  have r: "rat_of_int K / 2 ^ 52 = of_int (2 * K) / 2 ^ 53"
    by simp
  have "binary64 (binary64 (binary64 (of_int k) + 1 / 2) * (1 / 2 ^ 53)) =
        binary64 (binary64 (of_int k + 1 / 2) * (1 / 2 ^ 53))"
    by (simp only: k)
  also have "\<dots> = binary64 (of_int (2 * K) / 2 ^ 0 * (1 / 2 ^ 53))"
    by (simp only: a)
  also have "\<dots> = binary64 (of_int K / 2 ^ 52)"
    by (simp only: m)
  also have "\<dots> = of_int K / 2 ^ 52"
    by (rule e)
  also have "\<dots> = of_int (2 * K) / 2 ^ 53"
    by (rule r)
  finally show "binary64 (binary64 (binary64 (of_int k) + 1 / 2) * (1 / 2 ^ 53)) =
           of_int (2 * ((k + 1) div 2)) / 2 ^ 53"
    unfolding K_def .
  have eq2: "(rat_of_int k + 1 / 2) / 2 ^ 53 = of_int (2 * k + 1) / 2 ^ (53 + 1)"
    by (simp add: field_simps)
  have "binary64 (of_int (2 * k + 1) / 2 ^ (53 + 1)) = of_int (2 * ((k + 1) div 2)) / 2 ^ 53"
    using assms by (intro binary64_tie) simp_all
  then show "binary64 ((of_int k + 1 / 2) / 2 ^ 53) = of_int (2 * ((k + 1) div 2)) / 2 ^ 53"
    by (subst eq2)
qed

subsection \<open>The conversion of a PRF output\<close>

lemma foldl_bytes_bound:
  "0 \<le> a \<Longrightarrow> foldl (\<lambda>a b. a * 256 + uint (b :: byte)) a bs < (a + 1) * 256 ^ length bs"
proof (induction bs arbitrary: a)
  case Nil
  then show ?case by simp
next
  case (Cons b bs)
  have "uint b < 256"
    using uint_bounded [of b] by simp
  have "foldl (\<lambda>a b. a * 256 + uint (b :: byte)) (a * 256 + uint b) bs
          < (a * 256 + uint b + 1) * 256 ^ length bs"
    using Cons.prems by (intro Cons.IH) simp
  also have "\<dots> \<le> ((a + 1) * 256) * 256 ^ length bs"
    using \<open>uint b < 256\<close> by (intro mult_right_mono) simp_all
  also have "\<dots> = (a + 1) * 256 ^ length (b # bs)"
    by simp
  finally show ?case by simp
qed

lemma unpack_Q_bound: "unpack_Q (take 8 bs) < 2 ^ 64"
proof -
  have "unpack_Q (take 8 bs) < 256 ^ length (take 8 bs)"
    using foldl_bytes_bound [of 0 "take 8 bs"] by (simp add: unpack_Q_def)
  also have "\<dots> \<le> (256::int) ^ 8"
    by (intro power_increasing) simp_all
  finally show ?thesis by simp
qed

lemma prf_eval_range: "\<exists>r. prf_eval P k x = Inr r \<and> 0 \<le> r \<and> r < 2 ^ 64"
  using mask64_bounds [of x] unpack_Q_bound unpack_Q_nonneg
  by (simp add: prf_eval_def pack_into_Q_def pack_Q_def Let_def)

lemma drop11_bounds:
  assumes "0 \<le> (r::int)" and "r < 2 ^ 64"
  shows "0 \<le> drop_bit 11 r" and "drop_bit 11 r < 2 ^ 53"
    and "drop_bit 11 r = 2 ^ 53 - 1 \<longleftrightarrow> 2 ^ 64 - 2 ^ 11 \<le> r"
  using assms by (simp_all add: drop_bit_eq_div pos_imp_zdiv_nonneg_iff) linarith+

lemma binary64_prims_ops:
  "fl_int (binary64_prims c h pw lg) n = binary64 (of_int n)"
  "fl_add (binary64_prims c h pw lg) x y = binary64 (x + y)"
  "fl_sub (binary64_prims c h pw lg) x y = binary64 (x - y)"
  "fl_mul (binary64_prims c h pw lg) x y = binary64 (x * y)"
  "fl_div (binary64_prims c h pw lg) x y = binary64 (x / y)"
  "fl_le (binary64_prims c h pw lg) x y \<longleftrightarrow> x \<le> y"
  "fl_lt (binary64_prims c h pw lg) x y \<longleftrightarrow> x < y"
  "fl_eq (binary64_prims c h pw lg) x y \<longleftrightarrow> x = y"
  "aes_encrypt (binary64_prims c h pw lg) = c"
  by (simp_all add: binary64_prims_def)

lemma spec_uniform_value:
  assumes "0 \<le> r" and "r < 2 ^ 64"
  shows "prf_uniform (binary64_prims c h pw lg) r = spec_uniform r"
    and "spec_uniform r =
           (if drop_bit 11 r < 2 ^ 52 then of_int (2 * drop_bit 11 r + 1) / 2 ^ 54
            else of_int (2 * ((drop_bit 11 r + 1) div 2)) / 2 ^ 53)"
proof -
  note b = drop11_bounds(1,2) [OF assms]
  have p: "prf_uniform (binary64_prims c h pw lg) r =
      binary64 (binary64 (binary64 (of_int (drop_bit 11 r)) + 1 / 2) * (1 / 2 ^ 53))"
    unfolding prf_uniform_def binary64_prims_consts
    by (simp only: binary64_prims_ops binary64_consts)
  show "spec_uniform r =
           (if drop_bit 11 r < 2 ^ 52 then of_int (2 * drop_bit 11 r + 1) / 2 ^ 54
            else of_int (2 * ((drop_bit 11 r + 1) div 2)) / 2 ^ 53)"
    unfolding spec_uniform_def
    using uniform_small(2) [of "drop_bit 11 r"] uniform_large(2) [of "drop_bit 11 r"] b
    by (simp del: of_int_add of_int_mult)
  show "prf_uniform (binary64_prims c h pw lg) r = spec_uniform r"
    unfolding p spec_uniform_def
    using uniform_small [of "drop_bit 11 r"] uniform_large [of "drop_bit 11 r"] b
    by (cases "drop_bit 11 r < 2 ^ 52") (simp_all del: of_int_add of_int_mult)
qed

lemma spec_uniform_range:
  assumes "0 \<le> r" and "r < 2 ^ 64"
  shows "0 < spec_uniform r" and "spec_uniform r \<le> 1"
    and "spec_uniform r = 1 \<longleftrightarrow> 2 ^ 64 - 2 ^ 11 \<le> r"
proof -
  define k where "k = drop_bit 11 r"
  note b = drop11_bounds [OF assms, folded k_def]
  note v = spec_uniform_value(2) [OF assms, folded k_def]
  have K: "k < 2 ^ 52 \<or> (2 ^ 52 \<le> 2 * ((k + 1) div 2) \<and> 2 * ((k + 1) div 2) \<le> 2 ^ 53 \<and>
             (2 * ((k + 1) div 2) = 2 ^ 53 \<longleftrightarrow> k = 2 ^ 53 - 1))"
    using b(1,2) by auto
  show "0 < spec_uniform r"
    unfolding v using b(1) K by (auto simp: zero_less_divide_iff simp del: of_int_add of_int_mult)
  have small: "rat_of_int (2 * k + 1) / 2 ^ 54 < 1" if "k < 2 ^ 52"
  proof -
    have "2 * k + 1 < 2 ^ 54" using that by simp
    then have "rat_of_int (2 * k + 1) < 2 ^ 54"
      by (metis of_int_less_iff of_int_numeral of_int_power)
    then show ?thesis by simp
  qed
  have large: "rat_of_int (2 * ((k + 1) div 2)) / 2 ^ 53 \<le> 1"
      "rat_of_int (2 * ((k + 1) div 2)) / 2 ^ 53 = 1 \<longleftrightarrow> k = 2 ^ 53 - 1" if "\<not> k < 2 ^ 52"
  proof -
    from that K have le: "2 * ((k + 1) div 2) \<le> 2 ^ 53"
      and eq: "2 * ((k + 1) div 2) = 2 ^ 53 \<longleftrightarrow> k = 2 ^ 53 - 1" by simp_all
    from le have "rat_of_int (2 * ((k + 1) div 2)) \<le> 2 ^ 53"
      by (metis of_int_le_iff of_int_numeral of_int_power)
    then show "rat_of_int (2 * ((k + 1) div 2)) / 2 ^ 53 \<le> 1" by simp
    have "rat_of_int (2 * ((k + 1) div 2)) = 2 ^ 53 \<longleftrightarrow> 2 * ((k + 1) div 2) = 2 ^ 53"
      by (metis of_int_eq_iff of_int_numeral of_int_power)
    with eq show "rat_of_int (2 * ((k + 1) div 2)) / 2 ^ 53 = 1 \<longleftrightarrow> k = 2 ^ 53 - 1"
      by simp
  qed
  show "spec_uniform r \<le> 1"
    unfolding v using small large(1) by (cases "k < 2 ^ 52") (simp_all del: of_int_add of_int_mult)
  show "spec_uniform r = 1 \<longleftrightarrow> 2 ^ 64 - 2 ^ 11 \<le> r"
    unfolding v b(3) [symmetric] using small large(2)
    by (cases "k < 2 ^ 52") (auto simp del: of_int_add of_int_mult)
qed

subsection \<open>The paths of the sampler\<close>

lemma round_binary64_nonneg: "0 < a \<Longrightarrow> 0 < b \<Longrightarrow> 0 \<le> round_binary64 a b"
  by (simp add: round_binary64_def Let_def rhe_div_nonneg)

lemma binary64_nonneg: "0 \<le> x \<Longrightarrow> 0 \<le> binary64 x"
proof (cases "x = 0")
  case True
  then show ?thesis by (simp add: binary64_def)
next
  case False
  assume "0 \<le> x"
  with False have xpos: "0 < x" by simp
  obtain a b where q: "quotient_of x = (a, b)" by (cases "quotient_of x")
  have b: "0 < b" using q by (rule quotient_of_denom_pos)
  have "x = of_int a / of_int b" using q by (rule quotient_of_div)
  with xpos b have a: "0 < a" by (simp add: zero_less_divide_iff)
  show ?thesis
    using False q a round_binary64_nonneg [OF a b] by (simp add: binary64_def)
qed

lemma variance_nonneg:
  assumes "0 \<le> n" and "0 \<le> p" and "p \<le> 1"
  shows "0 \<le> fl_mul (binary64_prims c h pw lg)
               (fl_mul (binary64_prims c h pw lg) (fl_int (binary64_prims c h pw lg) n) p)
               (fl_sub (binary64_prims c h pw lg) (fl_int (binary64_prims c h pw lg) 1) p)"
proof -
  have "0 \<le> binary64 (of_int n)"
    using assms(1) by (intro binary64_nonneg) simp
  then have "0 \<le> binary64 (binary64 (of_int n) * p)"
    using assms(2) by (intro binary64_nonneg) simp
  moreover have "0 \<le> binary64 (1 - p)"
    using assms(3) by (intro binary64_nonneg) simp
  ultimately have "0 \<le> binary64 (binary64 (binary64 (of_int n) * p) * binary64 (1 - p))"
    by (intro binary64_nonneg) simp
  moreover have "binary64 (rat_of_int 1) = 1"
    using binary64_consts(2) by simp
  ultimately show ?thesis
    by (simp only: binary64_prims_ops)
qed

lemma normal_approx_binomial_eq_spec:
  "\<not> float_of_int_overflows n \<Longrightarrow>
     normal_approx_binomial P n p u = Inr (spec_normal_sample P n p u)"
  by (simp add: normal_approx_binomial_def spec_normal_sample_def Let_def)

lemma sample_binomial_eq:
  "prf_eval P k node_id = Inr r \<Longrightarrow>
     sample_binomial P k node_id n p = binomial_inverse_cdf P n p (prf_uniform P r)"
  by (simp add: sample_binomial_def prf_uniform_def Let_def)

lemma binomial_inverse_cdf_binary64:
  assumes "0 < u" and "\<bar>n\<bar> < 2 ^ 64"
  shows "binomial_inverse_cdf (binary64_prims c h pw lg) n p u =
           (if 1 \<le> u then Inr n
            else if p = 0 then Inr 0
            else if p = 1 then Inr n
            else if n = 0 then Inr 0
            else if 100 < n then Inr (spec_normal_sample (binary64_prims c h pw lg) n p u)
            else exact_cdf_path (binary64_prims c h pw lg) n p u)"
  using assms(1)
    normal_approx_binomial_eq_spec [OF small_int_converts [OF assms(2)],
      of "binary64_prims c h pw lg" p u]
  unfolding binomial_inverse_cdf_def binary64_prims_consts
  by (simp add: binary64_prims_ops)

text \<open>
  C8 (as amended). In binary64 arithmetic, for a ball count \<open>0 \<le> n < 2^64\<close> and a
  probability \<open>0 \<le> p \<le> 1\<close>, \<^verbatim>\<open>sample_binomial(node_id, n, p)\<close> converts the 64-bit
  output \<open>r = prf_eval(node_id)\<close> to the double \<open>u\<close> nearest to
  \<open>((r >> 11) + 0.5) \<cdot> 2\<^sup>-\<^sup>5\<^sup>3\<close>: the two rounded operations of the code give that
  double, which is \<open>(2 (r >> 11) + 1) / 2\<^sup>5\<^sup>4\<close> when \<open>r >> 11 < 2\<^sup>5\<^sup>2\<close> and the
  neighbour of \<open>(r >> 11) + 0.5\<close> with an even numerator, over \<open>2\<^sup>5\<^sup>3\<close>, otherwise. So
  \<open>0 < u \<le> 1\<close>, and \<open>u = 1\<close> exactly when \<open>r \<ge> 2\<^sup>6\<^sup>4 - 2\<^sup>1\<^sup>1\<close>. The guards come first:
  the result is \<open>n\<close> if \<open>u \<ge> 1\<close>, 0 if \<open>p = 0\<close>, \<open>n\<close> if \<open>p = 1\<close>, 0 if \<open>n = 0\<close>.
  Otherwise it is
  \<open>clamp(round(n p + inv_normal_cdf(clamp(u, 0.001, 0.999)) \<cdot> sqrt(n p (1 - p))), 0, n)\<close>
  when \<open>n > 100\<close>, and the result of the exact CDF computation when \<open>n \<le> 100\<close>. The
  argument of \<^verbatim>\<open>math.sqrt\<close> is not negative, and no conversion overflows.
\<close>

theorem sample_binomial_binary64:
  assumes "0 \<le> n" and "n < 2 ^ 64" and "0 \<le> p" and "p \<le> 1"
  shows "\<exists>r. prf_eval (binary64_prims c h pw lg) k node_id = Inr r \<and> 0 \<le> r \<and> r < 2 ^ 64 \<and>
           prf_uniform (binary64_prims c h pw lg) r = spec_uniform r \<and>
           spec_uniform r =
             (if drop_bit 11 r < 2 ^ 52 then of_int (2 * drop_bit 11 r + 1) / 2 ^ 54
              else of_int (2 * ((drop_bit 11 r + 1) div 2)) / 2 ^ 53) \<and>
           0 < spec_uniform r \<and> spec_uniform r \<le> 1 \<and>
           (spec_uniform r = 1 \<longleftrightarrow> 2 ^ 64 - 2 ^ 11 \<le> r) \<and>
           0 \<le> fl_mul (binary64_prims c h pw lg)
                 (fl_mul (binary64_prims c h pw lg) (fl_int (binary64_prims c h pw lg) n) p)
                 (fl_sub (binary64_prims c h pw lg) (fl_int (binary64_prims c h pw lg) 1) p) \<and>
           sample_binomial (binary64_prims c h pw lg) k node_id n p =
             (if 2 ^ 64 - 2 ^ 11 \<le> r then Inr n
              else if p = 0 then Inr 0
              else if p = 1 then Inr n
              else if n = 0 then Inr 0
              else if 100 < n
                then Inr (spec_normal_sample (binary64_prims c h pw lg) n p (spec_uniform r))
              else exact_cdf_path (binary64_prims c h pw lg) n p (spec_uniform r))"
proof -
  let ?P = "binary64_prims c h pw lg"
  obtain r where r: "prf_eval ?P k node_id = Inr r" "0 \<le> r" "r < 2 ^ 64"
    using prf_eval_range by blast
  note v = spec_uniform_value(1) [OF r(2,3), of c h pw lg] spec_uniform_value(2) [OF r(2,3)]
  note u = spec_uniform_range [OF r(2,3)]
  have one: "1 \<le> spec_uniform r \<longleftrightarrow> 2 ^ 64 - 2 ^ 11 \<le> r"
    using u(2,3) by auto
  have n: "\<bar>n\<bar> < 2 ^ 64" using assms(1,2) by simp
  have "sample_binomial ?P k node_id n p = binomial_inverse_cdf ?P n p (spec_uniform r)"
    using sample_binomial_eq [OF r(1)] v(1) by simp
  also have "\<dots> =
      (if 2 ^ 64 - 2 ^ 11 \<le> r then Inr n
       else if p = 0 then Inr 0
       else if p = 1 then Inr n
       else if n = 0 then Inr 0
       else if 100 < n then Inr (spec_normal_sample ?P n p (spec_uniform r))
       else exact_cdf_path ?P n p (spec_uniform r))"
    unfolding binomial_inverse_cdf_binary64 [OF u(1) n] one ..
  finally have s: "sample_binomial ?P k node_id n p =
      (if 2 ^ 64 - 2 ^ 11 \<le> r then Inr n
       else if p = 0 then Inr 0
       else if p = 1 then Inr n
       else if n = 0 then Inr 0
       else if 100 < n then Inr (spec_normal_sample ?P n p (spec_uniform r))
       else exact_cdf_path ?P n p (spec_uniform r))" .
  show ?thesis
    using r v u variance_nonneg [OF assms(1,3,4), of c h pw lg] s by blast
qed

lemma demo_prf_sevens:
  "prf_eval demo_prims (replicate 16 7) 0 = Inr 506381209866536711"
  by code_simp

lemma demo_spec_sevens:
  "spec_normal_sample demo_prims 1000 (1 / 2) (494512900260289 / 2 ^ 54) = 468"
  by code_simp

lemma demo_drop_sevens: "drop_bit 11 (506381209866536711 :: int) = 247256450130144"
  by code_simp

theorem sample_binomial_binary64_witness:
  "(0::int) \<le> 1000 \<and> (1000::int) < 2 ^ 64 \<and> (0::rat) \<le> 1 / 2 \<and> (1 / 2 :: rat) \<le> 1 \<and>
   prf_eval demo_prims (replicate 16 7) 0 = Inr 506381209866536711 \<and>
   prf_uniform demo_prims 506381209866536711 = spec_uniform 506381209866536711 \<and>
   spec_uniform 506381209866536711 = 494512900260289 / 2 ^ 54 \<and>
   sample_binomial demo_prims (replicate 16 7) 0 1000 (1 / 2) =
     Inr (spec_normal_sample demo_prims 1000 (1 / 2) (spec_uniform 506381209866536711)) \<and>
   spec_normal_sample demo_prims 1000 (1 / 2) (spec_uniform 506381209866536711) = 468"
proof -
  from sample_binomial_binary64 [of 1000 "1 / 2" xor_cipher demo_hash pow_nearest
      ceil_log2_nearest "replicate 16 7" 0, folded demo_prims_def]
  obtain r where r: "prf_eval demo_prims (replicate 16 7) 0 = Inr r"
    and u: "prf_uniform demo_prims r = spec_uniform r"
    and v: "spec_uniform r =
             (if drop_bit 11 r < 2 ^ 52 then of_int (2 * drop_bit 11 r + 1) / 2 ^ 54
              else of_int (2 * ((drop_bit 11 r + 1) div 2)) / 2 ^ 53)"
    and s: "sample_binomial demo_prims (replicate 16 7) 0 1000 (1 / 2) =
             (if 2 ^ 64 - 2 ^ 11 \<le> r then Inr 1000
              else if (1 / 2 :: rat) = 0 then Inr 0
              else if (1 / 2 :: rat) = 1 then Inr 1000
              else if (1000 :: int) = 0 then Inr 0
              else if (100 :: int) < 1000
                then Inr (spec_normal_sample demo_prims 1000 (1 / 2) (spec_uniform r))
              else exact_cdf_path demo_prims 1000 (1 / 2) (spec_uniform r))"
    by auto
  from r demo_prf_sevens have r_eq: "r = 506381209866536711" by simp
  have v': "spec_uniform 506381209866536711 = 494512900260289 / 2 ^ 54"
    using v unfolding r_eq demo_drop_sevens by simp
  show ?thesis
    using demo_prf_sevens u s demo_spec_sevens unfolding r_eq v' by simp
qed

lemma binary64_2_53_plus_1: "binary64 (rat_of_int (2 ^ 53 + 1)) = 2 ^ 53"
  by code_simp

lemma round_half_even_2_53: "round_half_even (2 ^ 53) = 2 ^ 53"
  by code_simp

lemma spec_normal_sample_certain:
  "spec_normal_sample (binary64_prims c h pw lg) (2 ^ 53 + 1) 1 u = 2 ^ 53"
proof -
  let ?P = "binary64_prims c h pw lg"
  have one: "binary64 (rat_of_int 1) = 1"
    using binary64_consts(2) by simp
  have zero: "binary64 0 = 0"
    by (simp add: binary64_def)
  have mean: "fl_mul ?P (fl_int ?P (2 ^ 53 + 1)) 1 = 2 ^ 53"
    by (simp only: binary64_prims_ops binary64_2_53_plus_1 mult_1_right binary64_2_53)
  have q: "fl_sub ?P (fl_int ?P 1) 1 = 0"
    by (simp only: binary64_prims_ops one diff_self zero)
  have sd: "fl_sqrt ?P (fl_mul ?P (2 ^ 53) (fl_sub ?P (fl_int ?P 1) 1)) = 0"
    unfolding q by (simp add: binary64_prims_def zero binary64_sqrt_def)
  have res: "fl_add ?P (2 ^ 53) (fl_mul ?P z 0) = 2 ^ 53" for z
    by (simp only: binary64_prims_ops mult_zero_right zero add_0_right binary64_2_53)
  have "fl_round ?P = round_half_even"
    by (simp add: binary64_prims_def)
  then have rnd: "fl_round ?P (2 ^ 53) = 2 ^ 53"
    by (simp only: round_half_even_2_53)
  have "spec_normal_sample ?P (2 ^ 53 + 1) 1 u = max 0 (min (2 ^ 53 + 1) (2 ^ 53))"
    by (simp only: spec_normal_sample_def mean sd res rnd)
  then show ?thesis by simp
qed

lemma sample_binomial_certain:
  assumes "0 \<le> n" and "n < 2 ^ 64"
  shows "sample_binomial (binary64_prims c h pw lg) k node_id n 1 = Inr n"
proof -
  let ?P = "binary64_prims c h pw lg"
  obtain r where r: "prf_eval ?P k node_id = Inr r" "0 \<le> r" "r < 2 ^ 64"
    using prf_eval_range by blast
  have n: "\<bar>n\<bar> < 2 ^ 64" using assms by simp
  have "sample_binomial ?P k node_id n 1 = binomial_inverse_cdf ?P n 1 (spec_uniform r)"
    using sample_binomial_eq [OF r(1)] spec_uniform_value(1) [OF r(2,3), of c h pw lg] by simp
  also have "\<dots> = Inr n"
    unfolding binomial_inverse_cdf_binary64 [OF spec_uniform_range(1) [OF r(2,3)] n] by simp
  finally show ?thesis .
qed

text \<open>
  The claim as stated, with the formula of the normal approximation whenever \<open>n > 100\<close>,
  fails at \<open>n = 2\<^sup>5\<^sup>3 + 1\<close>, \<open>p = 1.0\<close>, for every key and every node identifier, whatever
  the cipher: the sampler returns \<open>n\<close>, through the guard \<open>u \<ge> 1\<close> or the guard
  \<open>p = 1\<close>, while the formula gives \<open>2\<^sup>5\<^sup>3\<close> for every \<open>u\<close>, because \<open>n * p\<close> is the
  double \<open>2\<^sup>5\<^sup>3\<close> and the standard deviation is 0.
\<close>

theorem sample_binomial_counterexample:
  "\<forall>c h pw lg k node_id u.
     (100::int) < 2 ^ 53 + 1 \<and>
     sample_binomial (binary64_prims c h pw lg) k node_id (2 ^ 53 + 1) 1 = Inr (2 ^ 53 + 1) \<and>
     spec_normal_sample (binary64_prims c h pw lg) (2 ^ 53 + 1) 1 u = 2 ^ 53"
  using sample_binomial_certain [of "2 ^ 53 + 1"] spec_normal_sample_certain
  by simp

end
